theory Spec2Isabelle
  imports Main
begin

section \<open>Python values and exceptions\<close>

text \<open>
  Python integers are unbounded and are modelled by \<open>int\<close>. A share point is a pair
  \<open>(x, y)\<close> of integers, a share is a list of points, one for each byte of the secret.
  Every exception the library can raise is a value of \<open>error\<close>; a function that may
  raise returns \<open>error + 'a\<close> with \<open>Inl\<close> for the exception.
\<close>

datatype error =
    ValueError string
  | BinasciiError string
  | UnicodeDecodeError
  | IndexError
  | OverflowError

text \<open>The classes of Python's hierarchy that the specification names.\<close>

fun is_ArithmeticError :: "error \<Rightarrow> bool" where
  "is_ArithmeticError OverflowError = True"
| "is_ArithmeticError _ = False"

fun is_ValueError :: "error \<Rightarrow> bool" where
  "is_ValueError (ValueError _) = True"
| "is_ValueError (BinasciiError _) = True"
| "is_ValueError UnicodeDecodeError = True"
| "is_ValueError _ = False"

type_synonym point = "int \<times> int"
type_synonym share = "point list"

definition PRIME :: int where
  "PRIME = 257"

section \<open>Secret sharing core\<close>

text \<open>
  \<^verbatim>\<open>pow(a, -1, p)\<close>: the inverse of \<open>a\<close> modulo \<open>p\<close>, the one in \<open>[0, p)\<close> for a positive
  modulus and in \<open>(p, 0]\<close> for a negative one. Python raises \<open>ValueError\<close> when \<open>a\<close> has
  no inverse, and when the modulus is \<open>0\<close>.
\<close>

definition modinv :: "int \<Rightarrow> int \<Rightarrow> error + int" where
  "modinv a p =
     (if p = 0 then Inl (ValueError ''pow() 3rd argument cannot be 0'')
      else (case find (\<lambda>b. (a * b) mod p = 1 mod p)
                      (if 0 < p then [0..p - 1] else rev [p + 1..0]) of
              None \<Rightarrow> Inl (ValueError ''base is not invertible for the given modulus'')
            | Some b \<Rightarrow> Inr b))"


text \<open>
  \<^verbatim>\<open>sum(c * pow(x, i, p) for i, c in enumerate(coeffs)) % p\<close>. The modulus is \<open>PRIME\<close> at
  every call; the model does not cover \<open>p = 0\<close>, where Python raises.
\<close>

definition eval_poly :: "int list \<Rightarrow> int \<Rightarrow> int \<Rightarrow> int" where
  "eval_poly coeffs x p = (\<Sum>(i, c) \<leftarrow> enumerate 0 coeffs. c * (x ^ i mod p)) mod p"

text \<open>
  \<^verbatim>\<open>lagrange_interp\<close>. The inner loop runs over \<^verbatim>\<open>enumerate(xs)\<close> and multiplies
  \<open>li\<close> by \<open>(-xj) * modinv(xi - xj, p)\<close>, reduced modulo \<open>p\<close>, for every \<open>j \<noteq> i\<close>; the
  outer loop runs over \<^verbatim>\<open>enumerate(zip(xs, ys))\<close> and accumulates \<open>total\<close>. An exception of
  \<open>modinv\<close> leaves both loops.
\<close>

fun lagrange_inner :: "int \<Rightarrow> nat \<Rightarrow> int \<Rightarrow> (nat \<times> int) list \<Rightarrow> int \<Rightarrow> error + int" where
  "lagrange_inner p i xi [] li = Inr li"
| "lagrange_inner p i xi ((j, xj) # rest) li =
     (if i \<noteq> j
      then (case modinv (xi - xj) p of
              Inl e \<Rightarrow> Inl e
            | Inr m \<Rightarrow> lagrange_inner p i xi rest (li * (- xj) * m mod p))
      else lagrange_inner p i xi rest li)"

fun lagrange_outer :: "int \<Rightarrow> int list \<Rightarrow> (nat \<times> int \<times> int) list \<Rightarrow> int \<Rightarrow> error + int" where
  "lagrange_outer p xs [] total' = Inr total'"
| "lagrange_outer p xs ((i, xi, yi) # rest) total' =
     (case lagrange_inner p i xi (enumerate 0 xs) 1 of
        Inl e \<Rightarrow> Inl e
      | Inr li \<Rightarrow> lagrange_outer p xs rest ((total' + yi * li) mod p))"

definition lagrange_interp :: "int list \<Rightarrow> int list \<Rightarrow> int \<Rightarrow> error + int" where
  "lagrange_interp xs ys p =
     (if card (set xs) \<noteq> length xs then Inl (ValueError ''Duplicate x values in shares.'')
      else lagrange_outer p xs (enumerate 0 (zip xs ys)) 0)"

text \<open>
  \<^verbatim>\<open>xs, ys = zip(*shares)\<close> cannot be unpacked when there is no point: \<open>ValueError\<close>.
\<close>

definition recover_secret :: "share \<Rightarrow> error + int" where
  "recover_secret shares =
     (if shares = [] then Inl (ValueError ''not enough values to unpack (expected 2, got 0)'')
      else lagrange_interp (map fst shares) (map snd shares) PRIME)"

section \<open>Text and bytes of the standard library\<close>

text \<open>
  A share token is a Python \<open>str\<close>; it is modelled by a HOL \<open>string\<close>, each character
  standing for the code point of the same number, so the tokens of the model are those
  over U+0000 to U+00FF. A \<open>bytes\<close> value is the list of its bytes as natural numbers.

  \<^verbatim>\<open>str.strip()\<close> removes the white space of \<^verbatim>\<open>str.isspace\<close> at both ends; in this range
  these are the code points 9 to 13, 28 to 32, 133 and 160.
\<close>

definition isspace :: "char \<Rightarrow> bool" where
  "isspace c = (let n = (of_char c :: nat) in
     (9 \<le> n \<and> n \<le> 13) \<or> (28 \<le> n \<and> n \<le> 32) \<or> n = 133 \<or> n = 160)"

definition strip :: "string \<Rightarrow> string" where
  "strip s = rev (dropWhile isspace (rev (dropWhile isspace s)))"

text \<open>\<^verbatim>\<open>s.split(sep)\<close> for a separator of one character: one more piece than separators.\<close>

fun split :: "char \<Rightarrow> string \<Rightarrow> string list" where
  "split sep [] = [[]]"
| "split sep (c # cs) =
     (if c = sep then [] # split sep cs
      else (case split sep cs of
              [] \<Rightarrow> [[c]]
            | w # ws \<Rightarrow> (c # w) # ws))"

text \<open>
  \<^verbatim>\<open>int(s)\<close> in base 10: white space, an optional sign, decimal digits that single
  underscores may separate, white space. The white space of \<^verbatim>\<open>int\<close> is narrower than that
  of \<^verbatim>\<open>strip\<close> (code points 9 to 13, 32, 133 and 160); in this range the only digits are
  \<open>0\<close> to \<open>9\<close>. Anything else is a \<open>ValueError\<close>. So is a literal of more digits than
  the interpreter's limit on conversions between \<open>int\<close> and \<open>str\<close>, which is 4300 unless
  the interpreter is configured otherwise; underscores, sign and white space do not
  count, leading zeros do.
\<close>

definition int_max_str_digits :: nat where
  "int_max_str_digits = 4300"

definition exceeds_limit :: error where
  "exceeds_limit = ValueError ''Exceeds the limit (4300 digits) for integer string conversion''"

definition int_isspace :: "char \<Rightarrow> bool" where
  "int_isspace c = (let n = (of_char c :: nat) in
     (9 \<le> n \<and> n \<le> 13) \<or> n = 32 \<or> n = 133 \<or> n = 160)"

definition digit_value :: "char \<Rightarrow> nat option" where
  "digit_value c = (let n = (of_char c :: nat) in
     if 48 \<le> n \<and> n \<le> 57 then Some (n - 48) else None)"

text \<open>The scan of the digits: the value read, the number of digits, and what follows.\<close>

fun int_digits :: "bool \<Rightarrow> nat \<Rightarrow> nat \<Rightarrow> string \<Rightarrow> (nat \<times> nat \<times> string) option" where
  "int_digits prev_underscore acc digits [] =
     (if prev_underscore then None else Some (acc, digits, []))"
| "int_digits prev_underscore acc digits (c # cs) =
     (case digit_value c of
        Some d \<Rightarrow> int_digits False (10 * acc + d) (Suc digits) cs
      | None \<Rightarrow>
          if c = CHR ''_'' then (if prev_underscore then None else int_digits True acc digits cs)
          else if prev_underscore then None
          else Some (acc, digits, c # cs))"

definition invalid_literal :: error where
  "invalid_literal = ValueError ''invalid literal for int() with base 10''"

definition py_int :: "string \<Rightarrow> error + int" where
  "py_int s =
     (let s1 = dropWhile int_isspace s;
          (sign, s2) = (case s1 of
                          c # r \<Rightarrow> if c = CHR ''+'' then (1, r)
                                   else if c = CHR ''-'' then (- 1, r)
                                   else (1, s1)
                        | [] \<Rightarrow> (1, s1))
      in case s2 of
           [] \<Rightarrow> Inl invalid_literal
         | c # _ \<Rightarrow>
             if digit_value c = None then Inl invalid_literal
             else (case int_digits False 0 0 s2 of
                     None \<Rightarrow> Inl invalid_literal
                   | Some (n, digits, rest) \<Rightarrow>
                       if int_max_str_digits < digits then Inl exceeds_limit
                       else if list_all int_isspace rest then Inr (sign * int n)
                       else Inl invalid_literal))"

text \<open>
  \<^verbatim>\<open>str(x)\<close>, as the f-string prints \<open>x\<close>: decimal, no leading zeros, \<open>-\<close> when negative.
  Printing is under the same limit: a number of more than 4300 digits raises \<open>ValueError\<close>.
\<close>

definition digit_char :: "nat \<Rightarrow> char" where
  "digit_char d = char_of (48 + d)"

fun nat_digits :: "nat \<Rightarrow> string" where
  "nat_digits n = (if n < 10 then [digit_char n] else nat_digits (n div 10) @ [digit_char (n mod 10)])"

declare nat_digits.simps [simp del]

definition py_str :: "int \<Rightarrow> error + string" where
  "py_str x =
     (let ds = nat_digits (nat \<bar>x\<bar>)
      in if int_max_str_digits < length ds then Inl exceeds_limit
         else Inr (if x < 0 then CHR ''-'' # ds else ds))"

text \<open>
  \<^verbatim>\<open>y.to_bytes(2, 'big')\<close> raises \<open>OverflowError\<close> outside \<open>[0, 65536)\<close>;
  \<^verbatim>\<open>b''.join(...)\<close> concatenates the pairs in order.
\<close>

definition to_bytes2 :: "int \<Rightarrow> error + nat list" where
  "to_bytes2 y = (if y < 0 \<or> 65536 \<le> y then Inl OverflowError
                  else Inr [nat (y div 256), nat (y mod 256)])"

fun join_to_bytes :: "int list \<Rightarrow> error + nat list" where
  "join_to_bytes [] = Inr []"
| "join_to_bytes (y # ys) =
     (case to_bytes2 y of
        Inl e \<Rightarrow> Inl e
      | Inr b \<Rightarrow> (case join_to_bytes ys of
                    Inl e \<Rightarrow> Inl e
                  | Inr bs \<Rightarrow> Inr (b @ bs)))"

text \<open>
  \<^verbatim>\<open>[int.from_bytes(y_bytes[i:i+2], 'big') for i in range(0, len(y_bytes), 2)]\<close>; the
  slice at the end of a sequence of odd length has one byte.
\<close>

fun from_bytes_pairs :: "nat list \<Rightarrow> int list" where
  "from_bytes_pairs [] = []"
| "from_bytes_pairs [a] = [int a]"
| "from_bytes_pairs (a # b # rest) = (int a * 256 + int b) # from_bytes_pairs rest"

subsection \<open>Base64\<close>

definition b64_alphabet :: string where
  "b64_alphabet = ''ABCDEFGHIJKLMNOPQRSTUVWXYZabcdefghijklmnopqrstuvwxyz0123456789+/''"

definition b64_char :: "nat \<Rightarrow> char" where
  "b64_char n = b64_alphabet ! n"

fun b64encode :: "nat list \<Rightarrow> string" where
  "b64encode [] = []"
| "b64encode [a] = [b64_char (a div 4), b64_char (a mod 4 * 16), CHR ''='', CHR ''='']"
| "b64encode [a, b] =
     [b64_char (a div 4), b64_char (a mod 4 * 16 + b div 16), b64_char (b mod 16 * 4), CHR ''='']"
| "b64encode (a # b # c # rest) =
     [b64_char (a div 4), b64_char (a mod 4 * 16 + b div 16),
      b64_char (b mod 16 * 4 + c div 64), b64_char (c mod 64)] @ b64encode rest"

text \<open>The decoding table of \<^verbatim>\<open>binascii\<close>: the value of a character of the alphabet.\<close>

definition b64_value :: "char \<Rightarrow> nat option" where
  "b64_value c = (let n = (of_char c :: nat) in
     if 65 \<le> n \<and> n \<le> 90 then Some (n - 65)
     else if 97 \<le> n \<and> n \<le> 122 then Some (n - 71)
     else if 48 \<le> n \<and> n \<le> 57 then Some (n + 4)
     else if n = 43 then Some 62
     else if n = 47 then Some 63
     else None)"

text \<open>
  \<^verbatim>\<open>binascii.a2b_base64\<close> as \<^verbatim>\<open>base64.b64decode\<close> calls it (not strict): characters
  outside the alphabet are skipped, a \<open>=\<close> counts as padding once two characters of a
  quad are read, and enough padding ends the input. The state is the position in the
  quad, the bits left over, the count of padding seen and the bytes written.
\<close>

fun a2b_base64 :: "string \<Rightarrow> nat \<Rightarrow> nat \<Rightarrow> nat \<Rightarrow> nat list \<Rightarrow> error + nat list" where
  "a2b_base64 [] quad_pos leftchar pads out =
     (if quad_pos \<noteq> 0
      then (if quad_pos = 1 then Inl (BinasciiError ''Invalid base64-encoded string'')
            else Inl (BinasciiError ''Incorrect padding''))
      else Inr out)"
| "a2b_base64 (c # cs) quad_pos leftchar pads out =
     (if c = CHR ''='' then
        (if 2 \<le> quad_pos \<and> 4 \<le> quad_pos + (pads + 1) then Inr out
         else a2b_base64 cs quad_pos leftchar (if 2 \<le> quad_pos then pads + 1 else pads) out)
      else (case b64_value c of
              None \<Rightarrow> a2b_base64 cs quad_pos leftchar pads out
            | Some v \<Rightarrow>
                if quad_pos = 0 then a2b_base64 cs 1 v 0 out
                else if quad_pos = 1
                  then a2b_base64 cs 2 (v mod 16) 0 (out @ [leftchar * 4 + v div 16])
                else if quad_pos = 2
                  then a2b_base64 cs 3 (v mod 4) 0 (out @ [leftchar * 16 + v div 4])
                else a2b_base64 cs 0 0 0 (out @ [leftchar * 64 + v])))"

text \<open>A \<open>str\<close> argument is first encoded as ASCII, which fails on any other character.\<close>

definition b64decode :: "string \<Rightarrow> error + nat list" where
  "b64decode s =
     (if list_ex (\<lambda>c. 128 \<le> (of_char c :: nat)) s
      then Inl (ValueError ''string argument should contain only ASCII characters'')
      else a2b_base64 s 0 0 0 [])"

section \<open>Share serialization\<close>

definition share_to_str :: "share \<Rightarrow> error + string" where
  "share_to_str share =
     (case share of
        [] \<Rightarrow> Inl IndexError
      | (x, _) # _ \<Rightarrow>
          (case join_to_bytes (map snd share) of
             Inl e \<Rightarrow> Inl e
           | Inr y_bytes \<Rightarrow>
               (case py_str x of
                  Inl e \<Rightarrow> Inl e
                | Inr x_str \<Rightarrow> Inr (x_str @ '':'' @ b64encode y_bytes))))"

text \<open>
  The body of the \<^verbatim>\<open>try\<close> block of \<^verbatim>\<open>str_to_share\<close>, with its exceptions; unpacking
  the pieces into \<^verbatim>\<open>x_str, y_b64\<close> needs exactly two of them.
\<close>

definition str_to_share_try :: "string \<Rightarrow> error + share" where
  "str_to_share_try s =
     (case split CHR '':'' (strip s) of
        [x_str, y_b64] \<Rightarrow>
          (case py_int x_str of
             Inl e \<Rightarrow> Inl e
           | Inr x \<Rightarrow>
               (case b64decode y_b64 of
                  Inl e \<Rightarrow> Inl e
                | Inr y_bytes \<Rightarrow>
                    if length y_bytes mod 2 \<noteq> 0 then Inl (ValueError ''Corrupted share encoding.'')
                    else (let y = from_bytes_pairs y_bytes in
                      if x \<le> 0 \<or> list_ex (\<lambda>v. \<not> (0 \<le> v \<and> v < PRIME)) y then Inl (ValueError [])
                      else Inr (map (\<lambda>v. (x, v)) y))))
      | _ \<Rightarrow> Inl (ValueError ''wrong number of values to unpack''))"

text \<open>\<^verbatim>\<open>except Exception: return None\<close>: every exception of the body becomes \<open>None\<close>.\<close>

definition str_to_share :: "string \<Rightarrow> share option" where
  "str_to_share s = (case str_to_share_try s of Inl e \<Rightarrow> None | Inr share \<Rightarrow> Some share)"

section \<open>Secret codec\<close>

text \<open>
  The secret is a Python \<open>str\<close>, modelled by the list of its code points.
  \<^verbatim>\<open>secrets.randbelow\<close> reads the system's random source; the source is modelled by the
  sequence \<open>g\<close> of the numbers it is going to deliver, each reduced into \<open>[0, n)\<close>, and
  drawing a number moves to the rest of the sequence.
\<close>

type_synonym rng = "nat \<Rightarrow> int"

definition randbelow :: "int \<Rightarrow> rng \<Rightarrow> int \<times> rng" where
  "randbelow n g = (g 0 mod n, \<lambda>i. g (Suc i))"

text \<open>\<^verbatim>\<open>[secrets.randbelow(PRIME) for _ in range(m)]\<close>\<close>

fun draw :: "nat \<Rightarrow> rng \<Rightarrow> int list \<times> rng" where
  "draw 0 g = ([], g)"
| "draw (Suc m) g =
     (let (r, g1) = randbelow PRIME g;
          (rs, g2) = draw m g1
      in (r # rs, g2))"

definition split_secret :: "int \<Rightarrow> int \<Rightarrow> int \<Rightarrow> rng \<Rightarrow> point list \<times> rng" where
  "split_secret byte n k g =
     (let (rs, g') = draw (nat (k - 1)) g;
          coeffs = byte # rs
      in (map (\<lambda>x. (x, eval_poly coeffs x PRIME)) [1..n], g'))"

definition isascii :: "nat list \<Rightarrow> bool" where
  "isascii s = list_all (\<lambda>c. c < 128) s"

text \<open>
  The inner loop of \<^verbatim>\<open>encode_secret\<close>, \<^verbatim>\<open>shares[i].append(s)\<close> over the enumerated
  points; an index outside \<open>shares\<close> would raise \<open>IndexError\<close>.
\<close>

fun append_points :: "(nat \<times> point) list \<Rightarrow> share list \<Rightarrow> error + share list" where
  "append_points [] shares = Inr shares"
| "append_points ((i, s) # rest) shares =
     (if i < length shares then append_points rest (shares[i := shares ! i @ [s]])
      else Inl IndexError)"

text \<open>The outer loop, over the bytes of the secret; every byte draws fresh coefficients.\<close>

fun encode_bytes :: "int list \<Rightarrow> int \<Rightarrow> int \<Rightarrow> share list \<Rightarrow> rng \<Rightarrow> error + share list" where
  "encode_bytes [] n k shares g = Inr shares"
| "encode_bytes (b # bs) n k shares g =
     (let (points, g') = split_secret b n k g
      in case append_points (enumerate 0 points) shares of
           Inl e \<Rightarrow> Inl e
         | Inr shares' \<Rightarrow> encode_bytes bs n k shares' g')"

text \<open>
  \<^verbatim>\<open>secret.encode()\<close> is reached for ASCII secrets only, whose UTF-8 bytes are their code
  points.
\<close>

definition encode_secret :: "nat list \<Rightarrow> int \<Rightarrow> int \<Rightarrow> rng \<Rightarrow> error + share list" where
  "encode_secret secret n k g =
     (if \<not> isascii secret then Inl (ValueError ''Only ASCII secrets supported.'')
      else encode_bytes (map int secret) n k (replicate (nat n) []) g)"

text \<open>
  \<^verbatim>\<open>zip(*shares)\<close>: the tuples of the points at the same position, as many as the shortest
  share has; none for no share.
\<close>

definition zip_star :: "'a list list \<Rightarrow> 'a list list" where
  "zip_star xss =
     (if xss = [] then []
      else map (\<lambda>i. map (\<lambda>xs. xs ! i) xss) [0..<Min (set (map length xss))])"

text \<open>
  \<^verbatim>\<open>bytes(recover_secret(list(byte_shares)) for ...)\<close>: the values are recovered in order,
  and each must lie in \<open>range(256)\<close>.
\<close>

fun recover_bytes :: "share list \<Rightarrow> error + nat list" where
  "recover_bytes [] = Inr []"
| "recover_bytes (byte_shares # rest) =
     (case recover_secret byte_shares of
        Inl e \<Rightarrow> Inl e
      | Inr v \<Rightarrow>
          if v < 0 \<or> 256 \<le> v then Inl (ValueError ''bytes must be in range(0, 256)'')
          else (case recover_bytes rest of
                  Inl e \<Rightarrow> Inl e
                | Inr bs \<Rightarrow> Inr (nat v # bs)))"

text \<open>
  \<^verbatim>\<open>bytes.decode()\<close> decodes UTF-8, strictly: one byte below 128; a lead byte 194 to 223
  with one continuation byte; 224 to 239 with two; 240 to 244 with three; the second byte
  is restricted after 224, 237, 240 and 244 (no overlong forms, no surrogates, nothing
  above U+10FFFF). Anything else is a \<open>UnicodeDecodeError\<close>.
\<close>

definition continuation :: "nat \<Rightarrow> bool" where
  "continuation b = (128 \<le> b \<and> b \<le> 191)"

definition second_ok :: "nat \<Rightarrow> nat \<Rightarrow> bool" where
  "second_ok b0 b1 =
     (if b0 = 224 then 160 \<le> b1 \<and> b1 \<le> 191
      else if b0 = 237 then 128 \<le> b1 \<and> b1 \<le> 159
      else if b0 = 240 then 144 \<le> b1 \<and> b1 \<le> 191
      else if b0 = 244 then 128 \<le> b1 \<and> b1 \<le> 143
      else continuation b1)"

fun utf8_decode :: "nat list \<Rightarrow> error + nat list" where
  "utf8_decode [] = Inr []"
| "utf8_decode (b0 # bs) =
     (if b0 < 128 then
        (case utf8_decode bs of Inl e \<Rightarrow> Inl e | Inr cs \<Rightarrow> Inr (b0 # cs))
      else if 194 \<le> b0 \<and> b0 \<le> 223 then
        (case bs of
           b1 # r \<Rightarrow>
             if continuation b1 then
               (case utf8_decode r of
                  Inl e \<Rightarrow> Inl e
                | Inr cs \<Rightarrow> Inr (((b0 - 192) * 64 + (b1 - 128)) # cs))
             else Inl UnicodeDecodeError
         | _ \<Rightarrow> Inl UnicodeDecodeError)
      else if 224 \<le> b0 \<and> b0 \<le> 239 then
        (case bs of
           b1 # b2 # r \<Rightarrow>
             if second_ok b0 b1 \<and> continuation b2 then
               (case utf8_decode r of
                  Inl e \<Rightarrow> Inl e
                | Inr cs \<Rightarrow> Inr (((b0 - 224) * 4096 + (b1 - 128) * 64 + (b2 - 128)) # cs))
             else Inl UnicodeDecodeError
         | _ \<Rightarrow> Inl UnicodeDecodeError)
      else if 240 \<le> b0 \<and> b0 \<le> 244 then
        (case bs of
           b1 # b2 # b3 # r \<Rightarrow>
             if second_ok b0 b1 \<and> continuation b2 \<and> continuation b3 then
               (case utf8_decode r of
                  Inl e \<Rightarrow> Inl e
                | Inr cs \<Rightarrow>
                    Inr (((b0 - 240) * 262144 + (b1 - 128) * 4096 + (b2 - 128) * 64 + (b3 - 128)) # cs))
             else Inl UnicodeDecodeError
         | _ \<Rightarrow> Inl UnicodeDecodeError)
      else Inl UnicodeDecodeError)"

definition decode_secret :: "share list \<Rightarrow> error + nat list" where
  "decode_secret shares =
     (case recover_bytes (zip_star shares) of
        Inl e \<Rightarrow> Inl e
      | Inr bs \<Rightarrow> utf8_decode bs)"

section \<open>Share validation\<close>

text \<open>
  \<^verbatim>\<open>indices = [s[0][0] for s in shares]\<close>: the comprehension raises \<open>IndexError\<close> at the
  first share that has no point.
\<close>

fun first_indices :: "share list \<Rightarrow> error + int list" where
  "first_indices [] = Inr []"
| "first_indices (s # ss) =
     (case s of
        [] \<Rightarrow> Inl IndexError
      | p # _ \<Rightarrow> (case first_indices ss of
                    Inl e \<Rightarrow> Inl e
                  | Inr xs \<Rightarrow> Inr (fst p # xs)))"

definition validate_shares :: "share list \<Rightarrow> error + (bool \<times> string)" where
  "validate_shares shares =
     (if length shares < 2 then Inr (False, ''At least 2 shares needed.'')
      else if card (set (map length shares)) \<noteq> 1 then Inr (False, ''Shares length mismatch.'')
      else (case first_indices shares of
              Inl e \<Rightarrow> Inl e
            | Inr indices \<Rightarrow>
                if card (set indices) \<noteq> length indices
                then Inr (False, ''Duplicate share indices.'')
                else Inr (True, '''')))"

section \<open>Notions used in the statements\<close>

text \<open>A decimal digit, and the number that a string of digits denotes.\<close>

definition is_digit :: "char \<Rightarrow> bool" where
  "is_digit c = (digit_value c \<noteq> None)"

definition digits_value :: "nat \<Rightarrow> string \<Rightarrow> nat" where
  "digits_value acc ds = foldl (\<lambda>a c. 10 * a + the (digit_value c)) acc ds"

text \<open>
  The bytes that \<^verbatim>\<open>share_to_str\<close> writes for the values \<open>ys\<close>, two for each value.
\<close>

definition y_bytes_of :: "int list \<Rightarrow> nat list" where
  "y_bytes_of ys = concat (map (\<lambda>y. [nat (y div 256), nat (y mod 256)]) ys)"

text \<open>
  A well-formed token for the index \<open>x\<close> and the values \<open>ys\<close>: decimal digits, no more of
  them than the limit of \<^verbatim>\<open>int\<close>, that denote \<open>x\<close>; one colon; a payload, without a colon
  and not ending in white space, that \<^verbatim>\<open>b64decode\<close> accepts and whose bytes are, two by
  two, the values \<open>ys\<close>, all in \<open>[0, 257)\<close>.
\<close>

definition well_formed_token :: "string \<Rightarrow> int \<Rightarrow> int list \<Rightarrow> bool" where
  "well_formed_token t x ys =
     (\<exists>ds payload y_bytes.
        t = ds @ '':'' @ payload
      \<and> ds \<noteq> [] \<and> list_all is_digit ds \<and> length ds \<le> int_max_str_digits
      \<and> x = int (digits_value 0 ds)
      \<and> CHR '':'' \<notin> set payload \<and> (payload = [] \<or> \<not> isspace (last payload))
      \<and> b64decode payload = Inr y_bytes \<and> length y_bytes mod 2 = 0
      \<and> ys = from_bytes_pairs y_bytes
      \<and> list_all (\<lambda>v. 0 \<le> v \<and> v < 257) ys)"

text \<open>
  The truth value Python gives to the result of \<^verbatim>\<open>str_to_share\<close>, as the test
  \<^verbatim>\<open>if not share\<close> of the command line reads it: \<open>None\<close> and the empty list are false.
\<close>

fun truthy :: "share option \<Rightarrow> bool" where
  "truthy None = False"
| "truthy (Some share) = (share \<noteq> [])"

section \<open>Inverses modulo 257\<close>

lemma no_divisor_257: "list_all (\<lambda>d. 257 mod d \<noteq> (0::nat)) [2..<257]"
  by code_simp

lemma divisors_257_nat:
  assumes "(d::nat) dvd 257" shows "d = 1 \<or> d = 257"
proof (rule ccontr)
  assume neg: "\<not> (d = 1 \<or> d = 257)"
  from assms have le: "d \<le> 257" by (auto dest: dvd_imp_le)
  have nz: "d \<noteq> 0" using assms by (rule_tac ccontr) simp
  from neg le nz have "d \<in> {2..<257}" by (simp only: atLeastLessThan_iff) linarith
  moreover have "\<forall>e \<in> {2..<257}. 257 mod e \<noteq> (0::nat)"
    using no_divisor_257 unfolding list_all_iff set_upt .
  ultimately have "257 mod d \<noteq> 0" by blast
  with assms show False by (simp only: dvd_eq_mod_eq_0)
qed

lemma divisors_257_int:
  assumes "(d::int) dvd 257" and "0 \<le> d" shows "d = 1 \<or> d = 257"
proof -
  from assms(2) have "int (nat d) dvd int 257" using assms(1) by simp
  then have "nat d dvd 257" by (simp only: int_dvd_int_iff)
  then have "nat d = 1 \<or> nat d = 257" by (rule divisors_257_nat)
  with assms(2) show ?thesis by auto
qed

lemma coprime_257:
  assumes "\<not> 257 dvd (a::int)" shows "coprime a 257"
proof -
  have "gcd a 257 dvd 257" by (rule gcd_dvd2)
  moreover have "0 \<le> gcd a 257" by simp
  ultimately consider "gcd a 257 = 1" | "gcd a 257 = 257"
    using divisors_257_int by blast
  then show ?thesis
  proof cases
    case 1
    then show ?thesis by (simp only: coprime_iff_gcd_eq_1)
  next
    case 2
    have "gcd a 257 dvd a" by (rule gcd_dvd1)
    with 2 assms show ?thesis by simp
  qed
qed

lemma inverse_exists_257:
  assumes "\<not> 257 dvd (a::int)"
  shows "\<exists>b. 0 \<le> b \<and> b < 257 \<and> (a * b) mod 257 = 1"
proof -
  from coprime_257 [OF assms] have "gcd a 257 = 1" by (simp only: coprime_iff_gcd_eq_1)
  with bezout_int [of a 257] obtain u v where uv: "u * a + v * 257 = 1" by metis
  then have au: "a * u = 1 + 257 * (- v)" by (simp add: algebra_simps)
  have "(a * (u mod 257)) mod 257 = (a * u) mod 257" by (simp add: mod_mult_right_eq)
  also have "\<dots> = 1 mod 257" unfolding au by (rule mod_mult_self2)
  finally have "(a * (u mod 257)) mod 257 = 1" by simp
  moreover have "0 \<le> u mod 257" "u mod 257 < 257" by simp_all
  ultimately show ?thesis by blast
qed

lemma modinv_257:
  assumes "\<not> 257 dvd (a::int)"
  shows "\<exists>b. modinv a 257 = Inr b \<and> 0 \<le> b \<and> b < 257 \<and> (a * b) mod 257 = 1"
proof -
  from inverse_exists_257 [OF assms] obtain b where b: "0 \<le> b" "b < 257" "(a * b) mod 257 = 1" by blast
  then have "b \<in> set [0..256]" by simp
  with b(3) have "find (\<lambda>b. (a * b) mod 257 = 1 mod 257) [0..256] \<noteq> None"
    by (auto simp: find_None_iff)
  then obtain c where c: "find (\<lambda>b. (a * b) mod 257 = 1 mod 257) [0..256] = Some c" by blast
  then have "c \<in> set [0..256]" "(a * c) mod 257 = 1"
    by (auto simp: find_Some_iff)
  with c show ?thesis by (simp add: modinv_def)
qed

lemma modinv_257_fail:
  assumes "257 dvd (a::int)"
  shows "modinv a 257 = Inl (ValueError ''base is not invertible for the given modulus'')"
proof -
  have "\<And>b. (a * b) mod 257 = 0" using assms by (simp add: mod_eq_0_iff_dvd)
  then have "find (\<lambda>b. (a * b) mod 257 = 1 mod 257) [0..256] = None"
    by (simp add: find_None_iff)
  then show ?thesis by (simp add: modinv_def)
qed


section \<open>The byte recoverer returns on distinct indices\<close>

lemma lagrange_inner_succeeds:
  assumes "\<And>j xj. (j, xj) \<in> set js \<Longrightarrow> i \<noteq> j \<Longrightarrow> \<not> 257 dvd (xi - xj)"
  shows "\<exists>v. lagrange_inner 257 i xi js li = Inr v"
  using assms
proof (induction js arbitrary: li)
  case Nil
  then show ?case by simp
next
  case (Cons a js)
  obtain j xj where a: "a = (j, xj)" by (cases a)
  have rest: "\<exists>v. lagrange_inner 257 i xi js l = Inr v" for l
    by (rule Cons.IH) (use Cons.prems in auto)
  show ?case
  proof (cases "i = j")
    case True
    with rest a show ?thesis by simp
  next
    case False
    have "(j, xj) \<in> set (a # js)" using a by simp
    from Cons.prems [OF this False] have "\<not> 257 dvd (xi - xj)" .
    from modinv_257 [OF this] obtain m where "modinv (xi - xj) 257 = Inr m" by blast
    with False rest a show ?thesis by simp
  qed
qed

lemma lagrange_outer_succeeds:
  assumes "\<And>i xi yi. (i, xi, yi) \<in> set ps \<Longrightarrow> \<exists>v. lagrange_inner 257 i xi (enumerate 0 xs) 1 = Inr v"
    and "0 \<le> total'" and "total' < 257"
  shows "\<exists>v. lagrange_outer 257 xs ps total' = Inr v \<and> 0 \<le> v \<and> v < 257"
  using assms
proof (induction ps arbitrary: total')
  case Nil
  then show ?case by simp
next
  case (Cons a ps)
  obtain i xi yi where a: "a = (i, xi, yi)" by (cases a)
  with Cons.prems(1) obtain li where li: "lagrange_inner 257 i xi (enumerate 0 xs) 1 = Inr li"
    by (meson list.set_intros(1))
  have "\<exists>v. lagrange_outer 257 xs ps ((total' + yi * li) mod 257) = Inr v \<and> 0 \<le> v \<and> v < 257"
    by (rule Cons.IH) (use Cons.prems(1) in auto)
  with a li show ?case by simp
qed

lemma not_dvd_257_diff:
  assumes "1 \<le> (a::int)" "a \<le> 256" "1 \<le> b" "b \<le> 256" "a \<noteq> b"
  shows "\<not> 257 dvd (a - b)"
proof
  assume d: "257 dvd (a - b)"
  show False
  proof (cases "b < a")
    case True
    then have "0 < a - b" "a - b < 257" using assms by simp_all
    with d show False using zdvd_not_zless by blast
  next
    case False
    with assms have "0 < b - a" "b - a < 257" by simp_all
    moreover from d have "257 dvd (b - a)" by (metis dvd_minus_iff minus_diff_eq)
    ultimately show False using zdvd_not_zless by blast
  qed
qed

text \<open>
  C4. The byte recoverer never looks at a threshold: on every non-empty list of points
  with pairwise distinct \<open>x\<close> in \<open>[1, 256]\<close> and \<open>y\<close> in \<open>[0, 257)\<close> it returns a value in
  \<open>[0, 257)\<close> and raises nothing, however many points there are.
\<close>

theorem recover_secret_total:
  assumes "shares \<noteq> []" and "distinct (map fst shares)"
    and "\<forall>p \<in> set shares. 1 \<le> fst p \<and> fst p \<le> 256 \<and> 0 \<le> snd p \<and> snd p < 257"
  shows "\<exists>v. recover_secret shares = Inr v \<and> 0 \<le> v \<and> v < 257"
proof -
  let ?xs = "map fst shares" and ?ys = "map snd shares"
  have rng: "\<And>i. i < length shares \<Longrightarrow> 1 \<le> ?xs ! i \<and> ?xs ! i \<le> 256"
    using assms(3) by simp
  have inner: "\<exists>v. lagrange_inner 257 i xi (enumerate 0 ?xs) 1 = Inr v"
    if "(i, xi, yi) \<in> set (enumerate 0 (zip ?xs ?ys))" for i xi yi
  proof (rule lagrange_inner_succeeds)
    fix j xj assume j: "(j, xj) \<in> set (enumerate 0 ?xs)" and ij: "i \<noteq> j"
    from that have i: "i < length shares" "xi = ?xs ! i"
      by (auto simp: in_set_enumerate_eq)
    from j have j': "j < length shares" "xj = ?xs ! j"
      by (auto simp: in_set_enumerate_eq)
    from assms(2) i j' ij have "xi \<noteq> xj"
      by (simp add: nth_eq_iff_index_eq del: nth_map)
    with rng [OF i(1)] rng [OF j'(1)] i(2) j'(2) show "\<not> 257 dvd (xi - xj)"
      by (intro not_dvd_257_diff) simp_all
  qed
  have "\<exists>v. lagrange_outer 257 ?xs (enumerate 0 (zip ?xs ?ys)) 0 = Inr v \<and> 0 \<le> v \<and> v < 257"
    by (rule lagrange_outer_succeeds) (use inner in auto)
  moreover have "card (set ?xs) = length ?xs"
    using assms(2) by (rule distinct_card)
  ultimately show ?thesis
    using assms(1) by (simp add: recover_secret_def lagrange_interp_def PRIME_def del: set_map length_map)
qed


theorem recover_secret_total_witness:
  "\<exists>v. recover_secret [(5, 169), (2, 50)] = Inr v \<and> 0 \<le> v \<and> v < 257"
  using recover_secret_total [of "[(5, 169), (2, 50)]"] by simp

text \<open>
  Two of the points of the polynomial \<open>72 + 3 x + 250 x\<^sup>2\<close>, which was built for the
  threshold 3, interpolate to 142 and not to the byte 72; three of them give 72.
\<close>

lemma recover_secret_below_threshold:
  "map (\<lambda>x. (x, eval_poly [72, 3, 250] x PRIME)) [5, 2, 3] = [(5, 169), (2, 50), (3, 18)]"
  "recover_secret [(5, 169), (2, 50)] = Inr 142"
  "recover_secret [(5, 169), (2, 50), (3, 18)] = Inr 72"
  by code_simp+

section \<open>Duplicate indices in the byte recoverer\<close>

lemma recover_secret_duplicate_raises:
  "recover_secret [(1, 5), (1, 7)] = Inl (ValueError ''Duplicate x values in shares.'')"
  by (simp add: recover_secret_def lagrange_interp_def)

text \<open>
  C5, as stated, fails: on the points \<open>(1, 5)\<close> and \<open>(1, 7)\<close> the exception is the
  \<open>ValueError\<close> of the guard at the head of \<^verbatim>\<open>lagrange_interp\<close>, which is not an
  \<open>ArithmeticError\<close>.
\<close>

theorem recover_secret_duplicate_not_arithmetic:
  "recover_secret [(1, 5), (1, 7)] = Inl (ValueError ''Duplicate x values in shares.'')
   \<and> \<not> is_ArithmeticError (ValueError ''Duplicate x values in shares.'')"
  by (simp add: recover_secret_duplicate_raises)

text \<open>
  C5, amended. Whenever two of the points have the same \<open>x\<close>, the byte recoverer raises
  \<open>ValueError("Duplicate x values in shares.")\<close>: the guard of \<^verbatim>\<open>lagrange_interp\<close> fires
  before any inverse is computed.
\<close>

theorem recover_secret_duplicate_x:
  assumes "\<not> distinct (map fst shares)"
  shows "recover_secret shares = Inl (ValueError ''Duplicate x values in shares.'')"
proof -
  from assms have ne: "shares \<noteq> []" by auto
  have "card (set (map fst shares)) \<noteq> length (map fst shares)"
    using assms card_distinct by blast
  then have "lagrange_interp (map fst shares) (map snd shares) PRIME =
      Inl (ValueError ''Duplicate x values in shares.'')"
    unfolding lagrange_interp_def by (rule if_P)
  with ne show ?thesis by (simp add: recover_secret_def)
qed

theorem recover_secret_duplicate_x_witness:
  "recover_secret [(1, 5), (2, 9), (1, 7)] = Inl (ValueError ''Duplicate x values in shares.'')"
  using recover_secret_duplicate_x [of "[(1, 5), (2, 9), (1, 7)]"] by simp

section \<open>Decimal conversion\<close>

text \<open>Strings of decimal digits and the number they denote.\<close>

lemma digit_facts:
  "list_all (\<lambda>d. digit_value (digit_char d) = Some d) [0..<10]"
  by code_simp

lemma digit_value_digit_char: "d < 10 \<Longrightarrow> digit_value (digit_char d) = Some d"
  using digit_facts unfolding list_all_iff set_upt by simp

lemma is_digit_not_space: "is_digit c \<Longrightarrow> \<not> isspace c \<and> \<not> int_isspace c"
  by (auto simp: is_digit_def digit_value_def isspace_def int_isspace_def Let_def split: if_splits)

lemma of_char_neq: "(of_char c :: nat) \<noteq> of_char d \<Longrightarrow> c \<noteq> d"
  by auto

lemma is_digit_not_special:
  assumes "is_digit c"
  shows "c \<noteq> CHR '':''" "c \<noteq> CHR ''+''" "c \<noteq> CHR ''-''" "c \<noteq> CHR ''_''"
  using assms by (auto simp: is_digit_def digit_value_def Let_def split: if_splits)

lemma int_digits_digits:
  assumes "list_all is_digit ds"
    and "rest = [] \<or> (digit_value (hd rest) = None \<and> hd rest \<noteq> CHR ''_'')"
  shows "int_digits False acc n (ds @ rest) = Some (digits_value acc ds, n + length ds, rest)"
  using assms(1)
proof (induction ds arbitrary: acc n)
  case Nil
  from assms(2) show ?case by (cases rest) (auto simp: digits_value_def)
next
  case (Cons c ds)
  then obtain d where d: "digit_value c = Some d" by (auto simp: is_digit_def)
  from Cons have "int_digits False (10 * acc + d) (Suc n) (ds @ rest) =
      Some (digits_value (10 * acc + d) ds, Suc n + length ds, rest)"
    by simp
  with d show ?case by (simp add: digits_value_def)
qed

lemma py_int_digits_cases:
  assumes "ds \<noteq> []" and "list_all is_digit ds"
  shows "py_int ds = (if int_max_str_digits < length ds then Inl exceeds_limit
                      else Inr (int (digits_value 0 ds)))"
proof -
  from assms obtain c cs where ds: "ds = c # cs" and c: "is_digit c" by (cases ds) auto
  have s1: "dropWhile int_isspace ds = ds" using ds c is_digit_not_space by simp
  have dig: "int_digits False 0 0 ds = Some (digits_value 0 ds, length ds, [])"
    using int_digits_digits [OF assms(2), of "[]" 0 0] by simp
  from c obtain d where dv: "digit_value c = Some d" by (auto simp: is_digit_def)
  show ?thesis
    unfolding py_int_def s1 using is_digit_not_special [OF c] dig
    by (simp add: ds dv del: int_digits.simps)
qed

lemma py_int_digits:
  assumes "ds \<noteq> []" and "list_all is_digit ds" and "length ds \<le> int_max_str_digits"
  shows "py_int ds = Inr (int (digits_value 0 ds))"
  using py_int_digits_cases [OF assms(1,2)] assms(3) by simp

lemma py_int_too_long:
  assumes "list_all is_digit ds" and "int_max_str_digits < length ds"
  shows "py_int ds = Inl exceeds_limit"
proof -
  from assms(2) have "ds \<noteq> []" by auto
  from py_int_digits_cases [OF this assms(1)] assms(2) show ?thesis by simp
qed

lemma nat_digits_digits: "nat_digits n \<noteq> [] \<and> list_all is_digit (nat_digits n)"
proof (induction n rule: nat_digits.induct)
  case (1 n)
  show ?case
  proof (cases "n < 10")
    case True
    then show ?thesis by (simp add: nat_digits.simps [of n] is_digit_def digit_value_digit_char)
  next
    case False
    with 1 show ?thesis
      by (simp add: nat_digits.simps [of n] is_digit_def digit_value_digit_char)
  qed
qed

lemma digits_value_append:
  "digits_value acc (ds @ [c]) = 10 * digits_value acc ds + the (digit_value c)"
  by (simp add: digits_value_def)

lemma digits_value_nat_digits: "digits_value 0 (nat_digits n) = n"
proof (induction n rule: nat_digits.induct)
  case (1 n)
  show ?case
  proof (cases "n < 10")
    case True
    then show ?thesis
      by (simp add: nat_digits.simps [of n] digits_value_def digit_value_digit_char)
  next
    case False
    with 1 have "digits_value 0 (nat_digits (n div 10)) = n div 10" by simp
    with False show ?thesis
      by (simp add: nat_digits.simps [of n] digits_value_append digit_value_digit_char)
  qed
qed

lemma length_nat_digits: "length (nat_digits n) \<le> Suc n"
proof (induction n rule: nat_digits.induct)
  case (1 n)
  show ?case
  proof (cases "n < 10")
    case True
    then show ?thesis by (simp add: nat_digits.simps [of n])
  next
    case False
    with 1 have "length (nat_digits (n div 10)) \<le> Suc (n div 10)" by simp
    moreover from False have "Suc (n div 10) < n" by simp
    ultimately show ?thesis using False by (simp add: nat_digits.simps [of n])
  qed
qed

subsection \<open>Stripping and splitting\<close>

lemma strip_id:
  assumes "s \<noteq> []" "\<not> isspace (hd s)" "\<not> isspace (last s)"
  shows "strip s = s"
proof -
  from assms have 1: "dropWhile isspace s = s" by (cases s) auto
  from assms have "rev s \<noteq> []" "\<not> isspace (hd (rev s))" by (simp_all add: hd_rev)
  then have 2: "dropWhile isspace (rev s) = rev s" by (cases "rev s") auto
  show ?thesis by (simp add: strip_def 1 2)
qed

lemma split_no_sep: "sep \<notin> set s \<Longrightarrow> split sep s = [s]"
  by (induction s) auto

lemma split_one_sep:
  "sep \<notin> set a \<Longrightarrow> sep \<notin> set b \<Longrightarrow> split sep (a @ sep # b) = [a, b]"
  by (induction a) (auto simp: split_no_sep)

subsection \<open>The Base64 alphabet\<close>

lemma b64_alphabet_facts:
  "\<forall>c \<in> set b64_alphabet. c \<noteq> CHR ''='' \<and> c \<noteq> CHR '':'' \<and> \<not> isspace c \<and> (of_char c :: nat) < 128"
  by (simp add: b64_alphabet_def isspace_def)

lemma length_b64_alphabet: "length b64_alphabet = 64"
  by (simp add: b64_alphabet_def)

lemma upt_64: "[0..<64] = 0 # 1 # [2..<64]"
  by (simp add: upt_conv_Cons)

lemma b64_values: "map b64_value b64_alphabet = map Some [0..<64]"
  unfolding upt_64 by (simp add: b64_alphabet_def b64_value_def)

lemma b64_value_b64_char: "n < 64 \<Longrightarrow> b64_value (b64_char n) = Some n"
proof -
  assume n: "n < 64"
  then have "b64_value (b64_alphabet ! n) = map b64_value b64_alphabet ! n"
    by (simp add: length_b64_alphabet)
  also have "\<dots> = Some n" unfolding b64_values using n by (simp del: upt_Suc)
  finally show ?thesis by (simp add: b64_char_def)
qed

subsection \<open>Decoding inverts encoding\<close>

lemma b64_char_in: "n < 64 \<Longrightarrow> b64_char n \<in> set b64_alphabet"
  by (simp add: b64_char_def length_b64_alphabet)

lemma b64_char_not_pad: "n < 64 \<Longrightarrow> b64_char n \<noteq> CHR ''=''"
  using b64_alphabet_facts b64_char_in by blast

lemma a2b_quad:
  assumes "v1 < 64" "v2 < 64" "v3 < 64" "v4 < 64"
  shows "a2b_base64 (b64_char v1 # b64_char v2 # b64_char v3 # b64_char v4 # cs) 0 l p out =
         a2b_base64 cs 0 0 0 (out @ [v1 * 4 + v2 div 16, v2 mod 16 * 16 + v3 div 4, v3 mod 4 * 64 + v4])"
  using assms by (simp add: b64_value_b64_char b64_char_not_pad)

lemma a2b_pad1:
  assumes "v1 < 64" "v2 < 64" "v3 < 64"
  shows "a2b_base64 [b64_char v1, b64_char v2, b64_char v3, CHR ''=''] 0 l p out =
         Inr (out @ [v1 * 4 + v2 div 16, v2 mod 16 * 16 + v3 div 4])"
  using assms by (simp add: b64_value_b64_char b64_char_not_pad)

lemma a2b_pad2:
  assumes "v1 < 64" "v2 < 64"
  shows "a2b_base64 [b64_char v1, b64_char v2, CHR ''='', CHR ''=''] 0 l p out =
         Inr (out @ [v1 * 4 + v2 div 16])"
  using assms by (simp add: b64_value_b64_char b64_char_not_pad)

lemma hi_nibble: "(b::nat) < 256 \<Longrightarrow> b div 16 < 16"
  by (simp add: less_mult_imp_div_less)

lemma hi_two: "(c::nat) < 256 \<Longrightarrow> c div 64 < 4"
  by (simp add: less_mult_imp_div_less)

lemma byte_recombine:
  fixes a b c :: nat
  assumes "a < 256" "b < 256" "c < 256"
  shows "a div 4 * 4 + (a mod 4 * 16 + b div 16) div 16 = a"
    "(a mod 4 * 16 + b div 16) mod 16 * 16 + (b mod 16 * 4 + c div 64) div 4 = b"
    "(b mod 16 * 4 + c div 64) mod 4 * 64 + c mod 64 = c"
    "a div 4 * 4 + (a mod 4 * 16) div 16 = a"
    "(a mod 4 * 16 + b div 16) mod 16 * 16 + (b mod 16 * 4) div 4 = b"
  using hi_nibble [OF assms(2)] hi_two [OF assms(3)] by simp_all

lemma sextet_bounds:
  fixes a b c :: nat
  assumes "a < 256" "b < 256" "c < 256"
  shows "a div 4 < 64" "a mod 4 * 16 + b div 16 < 64" "b mod 16 * 4 + c div 64 < 64" "c mod 64 < 64"
    "a mod 4 * 16 < 64" "b mod 16 * 4 < 64"
proof -
  have a4: "a mod 4 < 4" and b16: "b mod 16 < 16" by simp_all
  show "a div 4 < 64" using assms(1) by (simp add: less_mult_imp_div_less)
  show "a mod 4 * 16 + b div 16 < 64" using a4 hi_nibble [OF assms(2)] by linarith
  show "b mod 16 * 4 + c div 64 < 64" using b16 hi_two [OF assms(3)] by linarith
  show "c mod 64 < 64" by simp
  show "a mod 4 * 16 < 64" using a4 by linarith
  show "b mod 16 * 4 < 64" using b16 by linarith
qed

lemma a2b_b64encode:
  "list_all (\<lambda>b. b < 256) bs \<Longrightarrow> a2b_base64 (b64encode bs) 0 0 0 out = Inr (out @ bs)"
proof (induction bs arbitrary: out rule: b64encode.induct)
  case 1
  then show ?case by simp
next
  case (2 a)
  then have a: "a < 256" by simp
  show ?case
    using a2b_pad2 [OF sextet_bounds(1) [OF a a a] sextet_bounds(5) [OF a a a]]
      byte_recombine(4) [OF a a a] by simp
next
  case (3 a b)
  then have a: "a < 256" and b: "b < 256" by simp_all
  show ?case
    using a2b_pad1 [OF sextet_bounds(1) [OF a b b] sextet_bounds(2) [OF a b b] sextet_bounds(6) [OF a b b]]
      byte_recombine(4) [OF a b b] byte_recombine(1) [OF a b b] byte_recombine(5) [OF a b b] by simp
next
  case (4 a b c rest)
  then have a: "a < 256" and b: "b < 256" and c: "c < 256" and rest: "list_all (\<lambda>b. b < 256) rest"
    by simp_all
  have "a2b_base64 (b64encode (a # b # c # rest)) 0 0 0 out =
        a2b_base64 (b64encode rest) 0 0 0 (out @ [a, b, c])"
    using a2b_quad [OF sextet_bounds(1-4) [OF a b c]] byte_recombine(1-3) [OF a b c] by simp
  also have "\<dots> = Inr ((out @ [a, b, c]) @ rest)" by (rule 4(1) [OF rest])
  finally show ?case by simp
qed

lemma b64encode_chars:
  "list_all (\<lambda>b. b < 256) bs \<Longrightarrow> set (b64encode bs) \<subseteq> insert CHR ''='' (set b64_alphabet)"
proof (induction bs rule: b64encode.induct)
  case 1
  then show ?case by simp
next
  case (2 a)
  then have a: "a < 256" by simp
  show ?case using sextet_bounds [OF a a a] by (simp add: b64_char_in)
next
  case (3 a b)
  then have a: "a < 256" and b: "b < 256" by simp_all
  show ?case using sextet_bounds [OF a b b] by (simp add: b64_char_in)
next
  case (4 a b c rest)
  then have a: "a < 256" and b: "b < 256" and c: "c < 256" and rest: "list_all (\<lambda>b. b < 256) rest"
    by simp_all
  show ?case using sextet_bounds [OF a b c] 4(1) [OF rest] by (simp add: b64_char_in)
qed

lemma b64encode_ascii:
  assumes "list_all (\<lambda>b. b < 256) bs" and "c \<in> set (b64encode bs)"
  shows "c \<noteq> CHR '':''" "\<not> isspace c" "(of_char c :: nat) < 128"
proof -
  from b64encode_chars [OF assms(1)] assms(2)
  consider "c = CHR ''=''" | "c \<in> set b64_alphabet" by blast
  then have "c \<noteq> CHR '':'' \<and> \<not> isspace c \<and> (of_char c :: nat) < 128"
  proof cases
    case 1
    then show ?thesis by (simp add: isspace_def)
  next
    case 2
    with b64_alphabet_facts show ?thesis by blast
  qed
  then show "c \<noteq> CHR '':''" "\<not> isspace c" "(of_char c :: nat) < 128" by blast+
qed

lemma b64decode_b64encode:
  assumes "list_all (\<lambda>b. b < 256) bs"
  shows "b64decode (b64encode bs) = Inr bs"
proof -
  have "\<not> list_ex (\<lambda>c. 128 \<le> (of_char c :: nat)) (b64encode bs)"
    unfolding list_ex_iff using b64encode_ascii(3) [OF assms] by (meson not_le)
  then show ?thesis using a2b_b64encode [OF assms, of "[]"] by (simp add: b64decode_def)
qed

subsection \<open>Parsing a well-formed token\<close>

lemma join_to_bytes_in_range:
  "list_all (\<lambda>y. 0 \<le> y \<and> y < 65536) ys \<Longrightarrow> join_to_bytes ys = Inr (y_bytes_of ys)"
  by (induction ys) (auto simp: y_bytes_of_def to_bytes2_def)

lemma y_bytes_of_bytes:
  "list_all (\<lambda>y. 0 \<le> y \<and> y < 65536) ys \<Longrightarrow> list_all (\<lambda>b. b < 256) (y_bytes_of ys)"
proof (induction ys)
  case Nil
  then show ?case by (simp add: y_bytes_of_def)
next
  case (Cons y ys)
  then have y: "0 \<le> y" "y < 65536" by simp_all
  then have "y div 256 < 256" by simp
  with y have "nat (y div 256) < 256" "nat (y mod 256) < 256" by simp_all
  with Cons show ?case by (simp add: y_bytes_of_def)
qed

lemma length_y_bytes_of: "length (y_bytes_of ys) = 2 * length ys"
  by (induction ys) (simp_all add: y_bytes_of_def)

lemma from_bytes_pairs_y_bytes_of:
  "list_all (\<lambda>y. 0 \<le> y \<and> y < 65536) ys \<Longrightarrow> from_bytes_pairs (y_bytes_of ys) = ys"
proof (induction ys)
  case Nil
  then show ?case by (simp add: y_bytes_of_def)
next
  case (Cons y ys)
  then have y: "0 \<le> y" by simp
  then have "0 \<le> y div 256" by simp
  with y have "int (nat (y div 256)) * 256 + int (nat (y mod 256)) = y" by simp
  with Cons show ?case by (simp add: y_bytes_of_def)
qed

lemma field_values_small:
  "list_all (\<lambda>v. 0 \<le> v \<and> v < (257::int)) ys \<Longrightarrow> list_all (\<lambda>y. 0 \<le> y \<and> y < 65536) ys"
  by (induction ys) auto

lemma str_to_share_try_two:
  assumes "split CHR '':'' (strip s) = [x_str, y_b64]"
  shows "str_to_share_try s =
          (case py_int x_str of
             Inl e \<Rightarrow> Inl e
           | Inr x \<Rightarrow>
               (case b64decode y_b64 of
                  Inl e \<Rightarrow> Inl e
                | Inr y_bytes \<Rightarrow>
                    if length y_bytes mod 2 \<noteq> 0 then Inl (ValueError ''Corrupted share encoding.'')
                    else (let y = from_bytes_pairs y_bytes in
                      if x \<le> 0 \<or> list_ex (\<lambda>v. \<not> (0 \<le> v \<and> v < PRIME)) y then Inl (ValueError [])
                      else Inr (map (\<lambda>v. (x, v)) y))))"
  unfolding str_to_share_try_def assms by simp

text \<open>Digits, a colon and a payload that has no colon and no white space at its end.\<close>

lemma token_pieces:
  assumes "ds \<noteq> []" and "list_all is_digit ds"
    and "CHR '':'' \<notin> set payload" and "payload = [] \<or> \<not> isspace (last payload)"
  shows "split CHR '':'' (strip (ds @ '':'' @ payload)) = [ds, payload]"
proof -
  let ?t = "ds @ '':'' @ payload"
  have hd: "\<not> isspace (hd ?t)"
    using assms(1,2) is_digit_not_space [of "hd ds"] by (cases ds) auto
  have "\<not> isspace (last ?t)"
    using assms(4) by (cases "payload = []") (simp_all add: isspace_def)
  with hd have strip: "strip ?t = ?t" by (intro strip_id) simp_all
  have "CHR '':'' \<notin> set ds"
    using assms(2) is_digit_not_special(1) by (auto simp: list_all_iff)
  with assms(3) have "split CHR '':'' ?t = [ds, payload]"
    using split_one_sep [of "CHR '':''" ds payload] by simp
  with strip show ?thesis by simp
qed

subsection \<open>Well-formed tokens\<close>

lemma str_to_share_well_formed:
  assumes "well_formed_token t x ys" and "0 < x"
  shows "str_to_share t = Some (map (\<lambda>v. (x, v)) ys)"
proof -
  from assms(1) obtain ds payload y_bytes where t: "t = ds @ '':'' @ payload"
    and ds: "ds \<noteq> []" "list_all is_digit ds" "length ds \<le> int_max_str_digits"
    and x: "x = int (digits_value 0 ds)"
    and pl: "CHR '':'' \<notin> set payload" "payload = [] \<or> \<not> isspace (last payload)"
    and dec: "b64decode payload = Inr y_bytes" "length y_bytes mod 2 = 0"
    and ys: "ys = from_bytes_pairs y_bytes" "list_all (\<lambda>v. 0 \<le> v \<and> v < 257) ys"
    unfolding well_formed_token_def by (elim exE conjE)
  have range: "\<not> list_ex (\<lambda>v. \<not> (0 \<le> v \<and> v < PRIME)) ys"
    using ys(2) by (auto simp: list_ex_iff list_all_iff PRIME_def)
  have "str_to_share_try t = Inr (map (\<lambda>v. (x, v)) ys)"
    unfolding t str_to_share_try_two [OF token_pieces [OF ds(1,2) pl]]
    using assms(2) range dec ys(1) x by (simp add: py_int_digits [OF ds])
  then show ?thesis by (simp add: str_to_share_def)
qed

lemma str_to_share_too_many_digits:
  assumes "list_all is_digit ds" and "int_max_str_digits < length ds"
    and "CHR '':'' \<notin> set payload" and "payload = [] \<or> \<not> isspace (last payload)"
  shows "str_to_share (ds @ '':'' @ payload) = None"
proof -
  from assms(2) have ne: "ds \<noteq> []" by auto
  have "str_to_share_try (ds @ '':'' @ payload) = Inl exceeds_limit"
    unfolding str_to_share_try_two [OF token_pieces [OF ne assms(1,3,4)]]
    by (simp add: py_int_too_long [OF assms(1,2)])
  then show ?thesis by (simp add: str_to_share_def)
qed

text \<open>The token that \<^verbatim>\<open>share_to_str\<close> prints is well formed.\<close>

lemma printed_token_well_formed:
  assumes "ds \<noteq> []" and "list_all is_digit ds" and "length ds \<le> int_max_str_digits"
    and ys: "list_all (\<lambda>v. 0 \<le> v \<and> v < 257) ys"
  shows "well_formed_token (ds @ '':'' @ b64encode (y_bytes_of ys)) (int (digits_value 0 ds)) ys"
proof -
  let ?pl = "b64encode (y_bytes_of ys)"
  note small = field_values_small [OF ys]
  note bytes = y_bytes_of_bytes [OF small]
  have "CHR '':'' \<notin> set ?pl"
    using b64encode_ascii(1) [OF bytes] by blast
  moreover have "?pl = [] \<or> \<not> isspace (last ?pl)"
    using b64encode_ascii(2) [OF bytes] last_in_set by blast
  moreover have "b64decode ?pl = Inr (y_bytes_of ys)"
    by (rule b64decode_b64encode [OF bytes])
  moreover have "length (y_bytes_of ys) mod 2 = 0"
    by (simp add: length_y_bytes_of)
  moreover have "ys = from_bytes_pairs (y_bytes_of ys)"
    by (simp add: from_bytes_pairs_y_bytes_of [OF small])
  ultimately show ?thesis
    unfolding well_formed_token_def using assms
    by (intro exI [of _ ds] exI [of _ ?pl] exI [of _ "y_bytes_of ys"] conjI refl)
qed

lemma digits_value_ge: "acc \<le> digits_value acc ds"
proof (induction ds arbitrary: acc)
  case Nil
  show ?case by (simp add: digits_value_def)
next
  case (Cons c ds)
  have "acc \<le> 10 * acc + the (digit_value c)" by simp
  also have "\<dots> \<le> digits_value (10 * acc + the (digit_value c)) ds" by (rule Cons.IH)
  finally show ?case by (simp add: digits_value_def)
qed

lemma digits_value_prefix: "digits_value 0 (ds @ es) = digits_value (digits_value 0 ds) es"
  by (simp add: digits_value_def)

lemma is_digit_1: "is_digit CHR ''1''" "digit_value CHR ''1'' = Some 1"
  by (simp_all add: is_digit_def digit_value_def)

lemma many_ones:
  "list_all is_digit (replicate n CHR ''1'')"
  "0 < digits_value 0 (replicate (Suc n) CHR ''1'')"
  "1111 \<le> digits_value 0 (replicate (4 + n) CHR ''1'')"
proof -
  show "list_all is_digit (replicate n CHR ''1'')"
    by (simp add: list_all_iff is_digit_1)
  have "digits_value 0 (replicate (Suc n) CHR ''1'') = digits_value 1 (replicate n CHR ''1'')"
    by (simp add: digits_value_def is_digit_1)
  with digits_value_ge [of 1 "replicate n CHR ''1''"]
  show "0 < digits_value 0 (replicate (Suc n) CHR ''1'')" by simp
  have "replicate (4 + n) CHR ''1'' = ''1111'' @ replicate n CHR ''1''"
    by (simp add: replicate_add numeral_eq_Suc)
  moreover have "digits_value 0 ''1111'' = 1111"
    by (simp add: digits_value_def is_digit_1)
  ultimately have "digits_value 0 (replicate (4 + n) CHR ''1'') =
      digits_value 1111 (replicate n CHR ''1'')"
    by (simp only: digits_value_prefix)
  with digits_value_ge [of 1111 "replicate n CHR ''1''"]
  show "1111 \<le> digits_value 0 (replicate (4 + n) CHR ''1'')" by simp
qed


section \<open>Properties of the share serialization\<close>

lemma py_str_small:
  assumes "0 < x" and "x \<le> 256"
  shows "py_str x = Inr (nat_digits (nat x))" "length (nat_digits (nat x)) \<le> int_max_str_digits"
proof -
  have "length (nat_digits (nat x)) \<le> Suc (nat x)" by (rule length_nat_digits)
  also have "\<dots> \<le> int_max_str_digits" using assms by (simp add: int_max_str_digits_def)
  finally show len: "length (nat_digits (nat x)) \<le> int_max_str_digits" .
  with assms(1) show "py_str x = Inr (nat_digits (nat x))"
    by (simp add: py_str_def Let_def)
qed

lemma share_to_str_small:
  assumes "share \<noteq> []" and "list_all (\<lambda>v. 0 \<le> v \<and> v < 257) (map snd share)"
    and "0 < fst (hd share)" and "fst (hd share) \<le> 256"
  shows "share_to_str share =
         Inr (nat_digits (nat (fst (hd share))) @ '':'' @ b64encode (y_bytes_of (map snd share)))"
  using assms(1) join_to_bytes_in_range [OF field_values_small [OF assms(2)]]
    py_str_small(1) [OF assms(3,4)]
  by (cases share) (auto simp: share_to_str_def)

text \<open>
  C2. Serialization round trip: a non-empty share whose points all carry the same \<open>x\<close> in
  \<open>[1, 256]\<close> and whose \<open>y\<close> lie in \<open>[0, 257)\<close> is printed by \<^verbatim>\<open>share_to_str\<close> without an
  exception, and \<^verbatim>\<open>str_to_share\<close> reads the printed token back as the same share.
\<close>

theorem serialization_roundtrip:
  assumes "share \<noteq> []"
    and "\<forall>p \<in> set share. fst p = x \<and> 0 \<le> snd p \<and> snd p < 257"
    and "1 \<le> x" and "x \<le> 256"
  shows "\<exists>t. share_to_str share = Inr t \<and> str_to_share t = Some share"
proof -
  let ?ys = "map snd share" and ?ds = "nat_digits (nat x)"
  have ys: "list_all (\<lambda>v. 0 \<le> v \<and> v < 257) ?ys"
    using assms(2) by (simp add: list_all_iff)
  have x: "fst (hd share) = x" using assms(1,2) by (cases share) auto
  have pos: "0 < x" using assms(3) by simp
  have share: "map (\<lambda>v. (x, v)) ?ys = share"
    using assms(2) by (induction share) auto
  have val: "int (digits_value 0 ?ds) = x"
    using pos by (simp add: digits_value_nat_digits)
  have wf: "well_formed_token (?ds @ '':'' @ b64encode (y_bytes_of ?ys)) (int (digits_value 0 ?ds)) ?ys"
    using nat_digits_digits [of "nat x"] py_str_small(2) [OF pos assms(4)] ys
    by (intro printed_token_well_formed) simp_all
  have "str_to_share (?ds @ '':'' @ b64encode (y_bytes_of ?ys)) =
      Some (map (\<lambda>v. (int (digits_value 0 ?ds), v)) ?ys)"
    by (rule str_to_share_well_formed [OF wf]) (simp only: val pos)
  then have "str_to_share (?ds @ '':'' @ b64encode (y_bytes_of ?ys)) = Some share"
    unfolding val share .
  moreover have "share_to_str share = Inr (?ds @ '':'' @ b64encode (y_bytes_of ?ys))"
    using share_to_str_small [OF assms(1) ys] pos assms(4) by (simp add: x)
  ultimately show ?thesis by simp
qed

lemma token_example:
  "nat_digits 3 @ '':'' @ b64encode (y_bytes_of [256, 0, 77]) = ''3:AQAAAABN''"
  by code_simp

theorem serialization_roundtrip_witness:
  "share_to_str [(3, 256), (3, 0), (3, 77)] = Inr ''3:AQAAAABN''
   \<and> str_to_share ''3:AQAAAABN'' = Some [(3, 256), (3, 0), (3, 77)]"
proof -
  from serialization_roundtrip [of "[(3, 256), (3, 0), (3, 77)]" 3]
  obtain t where t: "share_to_str [(3, 256), (3, 0), (3, 77)] = Inr t"
      "str_to_share t = Some [(3, 256), (3, 0), (3, 77)]" by auto
  have "share_to_str [(3, 256), (3, 0), (3, 77)] = Inr ''3:AQAAAABN''"
    using share_to_str_small [of "[(3, 256), (3, 0), (3, 77)]"] token_example by simp
  with t show ?thesis by simp
qed

text \<open>
  C9, as stated, fails at long tokens. The 4301 digits \<open>1\<close> denote a positive integer, yet
  \<^verbatim>\<open>int\<close> refuses a literal of more than 4300 digits, so for these digits, a colon and an
  empty payload \<^verbatim>\<open>str_to_share\<close> returns the failure value and not the empty list.
\<close>

theorem empty_payload_long_index_fails:
  "list_all is_digit (replicate 4301 CHR ''1'')
   \<and> 0 < digits_value 0 (replicate 4301 CHR ''1'')
   \<and> str_to_share (replicate 4301 CHR ''1'' @ '':'') = None"
proof -
  have "0 < digits_value 0 (replicate (Suc 4300) CHR ''1'')" by (rule many_ones(2))
  then have "0 < digits_value 0 (replicate 4301 CHR ''1'')" by simp
  moreover have "str_to_share (replicate 4301 CHR ''1'' @ '':'' @ []) = None"
    by (rule str_to_share_too_many_digits)
       (simp_all add: many_ones(1) int_max_str_digits_def)
  ultimately show ?thesis by (simp add: many_ones(1))
qed

text \<open>
  C9, amended. A token made of at most 4300 decimal digits that denote a positive number,
  a colon and an empty payload is read successfully as the empty list. The result is not
  the failure value \<open>None\<close>, but Python gives both the same truth value, false.
\<close>

theorem empty_payload_falsy_success:
  assumes "ds \<noteq> []" and "list_all is_digit ds" and "length ds \<le> int_max_str_digits"
    and "0 < digits_value 0 ds"
  shows "str_to_share (ds @ '':'') = Some []
     \<and> str_to_share (ds @ '':'') \<noteq> None
     \<and> truthy (str_to_share (ds @ '':'')) = truthy None"
proof -
  have "well_formed_token (ds @ '':'' @ b64encode (y_bytes_of [])) (int (digits_value 0 ds)) []"
    using assms(1-3) by (intro printed_token_well_formed) simp_all
  from str_to_share_well_formed [OF this] assms(4)
  have "str_to_share (ds @ '':'') = Some []" by (simp add: y_bytes_of_def)
  then show ?thesis by simp
qed

theorem empty_payload_falsy_success_witness:
  "str_to_share ''1:'' = Some [] \<and> str_to_share ''1:'' \<noteq> None
   \<and> truthy (str_to_share ''1:'') = truthy None
   \<and> str_to_share ''0042:'' = Some []"
  using empty_payload_falsy_success [of "''1''"] empty_payload_falsy_success [of "''0042''"]
  by (simp add: is_digit_def digit_value_def digits_value_def int_max_str_digits_def)


section \<open>Failures of deserialization\<close>

lemma length_split: "length (split sep s) = Suc (count_list s sep)"
  by (induction s) (auto split: list.splits)

lemma count_list_dropWhile: "\<not> P c \<Longrightarrow> count_list (dropWhile P s) c = count_list s c"
  by (induction s) auto

lemma count_list_rev_eq: "count_list (rev s) c = count_list s c"
  by (induction s) (auto simp: count_list_append)

lemma count_list_strip: "\<not> isspace c \<Longrightarrow> count_list (strip s) c = count_list s c"
  by (simp add: strip_def count_list_rev_eq count_list_dropWhile)

lemma colon_not_space: "\<not> isspace CHR '':''"
  by (simp add: isspace_def)

lemma str_to_share_wrong_pieces:
  assumes "count_list s CHR '':'' \<noteq> 1"
  shows "str_to_share_try s = Inl (ValueError ''wrong number of values to unpack'')"
proof -
  have "length (split CHR '':'' (strip s)) \<noteq> 2"
    using assms by (simp add: length_split count_list_strip [OF colon_not_space])
  then show ?thesis
    by (auto simp: str_to_share_try_def split: list.splits)
qed

lemma str_to_share_None: "str_to_share_try s = Inl e \<Longrightarrow> str_to_share s = None"
  by (simp add: str_to_share_def)

text \<open>
  C6. \<^verbatim>\<open>str_to_share\<close> never raises: whatever exception the body of its \<^verbatim>\<open>try\<close> block
  raises, the result is \<open>None\<close>, and otherwise it is the share the body returns. The
  result is \<open>None\<close> in each of these cases: the token does not have exactly one colon;
  the part before the colon is not accepted by \<^verbatim>\<open>int\<close> or denotes a number \<open>\<le> 0\<close>; the
  payload is rejected by \<^verbatim>\<open>b64decode\<close>; the decoded payload has an odd number of bytes;
  a decoded value lies outside \<open>[0, 257)\<close>.
\<close>

theorem str_to_share_failures:
  "(\<forall>e. str_to_share_try s = Inl e \<longrightarrow> str_to_share s = None)
   \<and> (\<forall>share. str_to_share_try s = Inr share \<longrightarrow> str_to_share s = Some share)
   \<and> (count_list s CHR '':'' \<noteq> 1 \<longrightarrow> str_to_share s = None)
   \<and> (split CHR '':'' (strip s) = [x_str, y_b64] \<longrightarrow>
        ((\<forall>x. py_int x_str = Inr x \<longrightarrow> x \<le> 0) \<longrightarrow> str_to_share s = None)
      \<and> ((\<exists>e. b64decode y_b64 = Inl e) \<longrightarrow> str_to_share s = None)
      \<and> (\<forall>y_bytes. b64decode y_b64 = Inr y_bytes \<longrightarrow>
            (length y_bytes mod 2 \<noteq> 0 \<longrightarrow> str_to_share s = None)
          \<and> ((\<exists>v \<in> set (from_bytes_pairs y_bytes). \<not> (0 \<le> v \<and> v < 257)) \<longrightarrow>
                str_to_share s = None)))"
proof (intro conjI allI impI)
  fix e assume "str_to_share_try s = Inl e"
  then show "str_to_share s = None" by (rule str_to_share_None)
next
  fix share assume "str_to_share_try s = Inr share"
  then show "str_to_share s = Some share" by (simp add: str_to_share_def)
next
  assume "count_list s CHR '':'' \<noteq> 1"
  from str_to_share_wrong_pieces [OF this] show "str_to_share s = None"
    by (rule str_to_share_None)
next
  assume two: "split CHR '':'' (strip s) = [x_str, y_b64]"
    and x: "\<forall>x. py_int x_str = Inr x \<longrightarrow> x \<le> 0"
  show "str_to_share s = None"
  proof (cases "py_int x_str")
    case (Inl e)
    then show ?thesis by (simp add: str_to_share_def str_to_share_try_two [OF two])
  next
    case (Inr x')
    with x have "x' \<le> 0" by blast
    with Inr show ?thesis
      by (simp add: str_to_share_def str_to_share_try_two [OF two] Let_def split: sum.splits)
  qed
next
  assume two: "split CHR '':'' (strip s) = [x_str, y_b64]"
    and "\<exists>e. b64decode y_b64 = Inl e"
  then show "str_to_share s = None"
    by (auto simp: str_to_share_def str_to_share_try_two [OF two] split: sum.splits)
next
  fix y_bytes
  assume two: "split CHR '':'' (strip s) = [x_str, y_b64]"
    and "b64decode y_b64 = Inr y_bytes" "length y_bytes mod 2 \<noteq> 0"
  then show "str_to_share s = None"
    by (auto simp: str_to_share_def str_to_share_try_two [OF two] split: sum.splits)
next
  fix y_bytes
  assume two: "split CHR '':'' (strip s) = [x_str, y_b64]"
    and y: "b64decode y_b64 = Inr y_bytes"
    and "\<exists>v \<in> set (from_bytes_pairs y_bytes). \<not> (0 \<le> v \<and> v < 257)"
  then have "list_ex (\<lambda>v. \<not> (0 \<le> v \<and> v < PRIME)) (from_bytes_pairs y_bytes)"
    by (simp add: list_ex_iff PRIME_def)
  with y show "str_to_share s = None"
    by (auto simp: str_to_share_def str_to_share_try_two [OF two] Let_def split: sum.splits)
qed

lemma failure_examples:
  "count_list ''3'' CHR '':'' = 0" "count_list ''1:2:AAA='' CHR '':'' = 2"
  "split CHR '':'' (strip ''x:AAA='') = [''x'', ''AAA='']"
  "split CHR '':'' (strip ''0:AAA='') = [''0'', ''AAA='']"
  "split CHR '':'' (strip ''3:A'') = [''3'', ''A'']"
  "split CHR '':'' (strip ''3:AA=='') = [''3'', ''AA=='']"
  "split CHR '':'' (strip ''3:AQE='') = [''3'', ''AQE='']"
  "py_int ''x'' = Inl invalid_literal" "py_int ''0'' = Inr 0"
  "b64decode ''A'' = Inl (BinasciiError ''Invalid base64-encoded string'')"
  "b64decode ''AA=='' = Inr [0]" "b64decode ''AQE='' = Inr [1, 1]"
  by code_simp+

theorem str_to_share_failures_witness:
  "str_to_share ''3'' = None \<and> str_to_share ''1:2:AAA='' = None
   \<and> str_to_share ''x:AAA='' = None \<and> str_to_share ''0:AAA='' = None
   \<and> str_to_share ''3:A'' = None \<and> str_to_share ''3:AA=='' = None
   \<and> str_to_share ''3:AQE='' = None"
proof -
  have "str_to_share ''3'' = None"
    using str_to_share_failures [of "''3''"] by (simp add: failure_examples)
  moreover have "str_to_share ''1:2:AAA='' = None"
    using str_to_share_failures [of "''1:2:AAA=''"] by (simp add: failure_examples)
  moreover have "str_to_share ''x:AAA='' = None"
    using str_to_share_failures [of "''x:AAA=''" "''x''" "''AAA=''"]
    by (simp add: failure_examples invalid_literal_def)
  moreover have "str_to_share ''0:AAA='' = None"
    using str_to_share_failures [of "''0:AAA=''" "''0''" "''AAA=''"]
    by (simp add: failure_examples)
  moreover have "str_to_share ''3:A'' = None"
    using str_to_share_failures [of "''3:A''" "''3''" "''A''"]
    by (simp add: failure_examples)
  moreover have "str_to_share ''3:AA=='' = None"
    using str_to_share_failures [of "''3:AA==''" "''3''" "''AA==''"]
    by (simp add: failure_examples)
  moreover have "str_to_share ''3:AQE='' = None"
    using str_to_share_failures [of "''3:AQE=''" "''3''" "''AQE=''"]
    by (simp add: failure_examples)
  ultimately show ?thesis by simp
qed

section \<open>Decoding bytes that are not ASCII\<close>

lemma utf8_decode_ascii_only:
  "utf8_decode bs = Inr s \<Longrightarrow> isascii s \<Longrightarrow> list_all (\<lambda>b. b < 128) bs"
proof (induction bs arbitrary: s rule: utf8_decode.induct)
  case 1
  then show ?case by simp
next
  case (2 b0 bs)
  show ?case
  proof (cases "b0 < 128")
    case True
    with "2.prems" obtain cs where cs: "utf8_decode bs = Inr cs" "s = b0 # cs"
      by (auto split: sum.splits)
    with "2.prems"(2) have "isascii cs" by (simp add: isascii_def)
    with "2.IH"(1) [OF True cs(1)] True show ?thesis by simp
  next
    case False
    have "\<exists>c cs. s = c # cs \<and> 128 \<le> c"
      using "2.prems"(1) False
      by (auto simp: second_ok_def continuation_def split: if_splits list.splits sum.splits)
    with "2.prems"(2) show ?thesis by (auto simp: isascii_def)
  qed
qed

lemma utf8_decode_error: "utf8_decode bs = Inl e \<Longrightarrow> e = UnicodeDecodeError"
proof (induction bs rule: utf8_decode.induct)
  case 1
  then show ?case by simp
next
  case (2 b0 bs)
  consider (one) "b0 < 128"
    | (two) "\<not> b0 < 128" "194 \<le> b0 \<and> b0 \<le> 223"
    | (three) "\<not> b0 < 128" "\<not> (194 \<le> b0 \<and> b0 \<le> 223)" "224 \<le> b0 \<and> b0 \<le> 239"
    | (four) "\<not> b0 < 128" "\<not> (194 \<le> b0 \<and> b0 \<le> 223)" "\<not> (224 \<le> b0 \<and> b0 \<le> 239)"
        "240 \<le> b0 \<and> b0 \<le> 244"
    | (none) "\<not> b0 < 128" "\<not> (194 \<le> b0 \<and> b0 \<le> 223)" "\<not> (224 \<le> b0 \<and> b0 \<le> 239)"
        "\<not> (240 \<le> b0 \<and> b0 \<le> 244)"
    by blast
  then show ?case
  proof cases
    case one
    with "2.prems" "2.IH"(1) show ?thesis by (auto split: sum.splits)
  next
    case two
    with "2.prems" "2.IH"(2) show ?thesis
      by (auto split: list.splits sum.splits if_splits)
  next
    case three
    with "2.prems" "2.IH"(3) show ?thesis
      by (auto split: list.splits sum.splits if_splits)
  next
    case four
    with "2.prems" "2.IH"(4) show ?thesis
      by (auto split: list.splits sum.splits if_splits)
  next
    case none
    with "2.prems" show ?thesis by simp
  qed
qed

lemma recover_bytes_values:
  "recover_bytes xs = Inr bs \<Longrightarrow>
     map recover_secret xs = map (\<lambda>b. Inr (int b)) bs \<and> list_all (\<lambda>b. b < 256) bs"
proof (induction xs arbitrary: bs)
  case Nil
  then show ?case by simp
next
  case (Cons a xs)
  then show ?case by (auto split: sum.splits if_splits)
qed

lemma recover_bytes_in_range:
  "map recover_secret xs = map Inr vs \<Longrightarrow> list_all (\<lambda>v. 0 \<le> v \<and> v < 256) vs \<Longrightarrow>
     recover_bytes xs = Inr (map nat vs)"
proof (induction xs arbitrary: vs)
  case Nil
  then show ?case by simp
next
  case (Cons a xs)
  then obtain v vs' where vs: "vs = v # vs'" by (cases vs) auto
  with Cons.prems have "recover_secret a = Inr v" "map recover_secret xs = map Inr vs'"
    "0 \<le> v" "v < 256" "list_all (\<lambda>v. 0 \<le> v \<and> v < 256) vs'" by simp_all
  with Cons.IH [of vs'] vs show ?case by simp
qed

lemma modinv_error: "modinv a p = Inl e \<Longrightarrow> is_ValueError e"
  by (auto simp: modinv_def split: if_splits option.splits)

lemma lagrange_inner_error: "lagrange_inner p i xi js li = Inl e \<Longrightarrow> is_ValueError e"
  by (induction p i xi js li rule: lagrange_inner.induct)
     (auto split: if_splits sum.splits dest: modinv_error)

lemma lagrange_outer_error: "lagrange_outer p xs ps t = Inl e \<Longrightarrow> is_ValueError e"
  by (induction p xs ps t rule: lagrange_outer.induct)
     (auto split: sum.splits dest: lagrange_inner_error)

lemma recover_secret_error: "recover_secret pts = Inl e \<Longrightarrow> is_ValueError e"
  by (auto simp: recover_secret_def lagrange_interp_def split: if_splits
      dest: lagrange_outer_error)

lemma recover_bytes_error: "recover_bytes xs = Inl e \<Longrightarrow> is_ValueError e"
  by (induction xs) (auto split: sum.splits if_splits dest: recover_secret_error)

text \<open>
  C3, as stated, fails. Two shares of length two whose bytes recover to 195 and 169, both
  outside 0 to 127: \<^verbatim>\<open>decode_secret\<close> raises nothing and returns the one-character string
  U+00E9, because \<^verbatim>\<open>bytes.decode()\<close> decodes UTF-8 and these two bytes are well formed.
\<close>

lemma non_ascii_example:
  "zip_star [[(1 :: int, 195 :: int), (1, 169)], [(2, 195), (2, 169)]] =
     [[(1, 195), (2, 195)], [(1, 169), (2, 169)]]"
  "recover_secret [(1, 195), (2, 195)] = Inr 195"
  "recover_secret [(1, 169), (2, 169)] = Inr 169"
  "recover_secret [(1 :: int, 200 :: int), (2, 200)] = Inr 200"
  "zip_star [[(1 :: int, 200 :: int)], [(2, 200)]] = [[(1, 200), (2, 200)]]"
  "recover_secret [(1 :: int, 256 :: int), (2, 256)] = Inr 256"
  "zip_star [[(1 :: int, 256 :: int)], [(2, 256)]] = [[(1, 256), (2, 256)]]"
  "utf8_decode [195, 169] = Inr [233]"
  "utf8_decode [200] = Inl UnicodeDecodeError"
  by code_simp+

theorem decode_secret_returns_non_ascii:
  "map recover_secret (zip_star [[(1, 195), (1, 169)], [(2, 195), (2, 169)]]) = [Inr 195, Inr 169]
   \<and> decode_secret [[(1, 195), (1, 169)], [(2, 195), (2, 169)]] = Inr [233]"
  by (simp add: decode_secret_def non_ascii_example continuation_def)

text \<open>
  C3, amended. Let the recovery at some position raise or give a value outside 0 to 127.
  If the recovery at some position raises or gives a value outside \<open>range(256)\<close> (that is,
  256), \<^verbatim>\<open>decode_secret\<close> raises a \<open>ValueError\<close>. Otherwise its result is that of decoding
  the recovered bytes as UTF-8: it raises \<open>UnicodeDecodeError\<close> when they are not well
  formed, and else returns the string they encode, which is not ASCII. It never returns
  an ASCII string.
\<close>

theorem decode_secret_not_ascii:
  assumes "\<exists>r \<in> set (map recover_secret (zip_star shares)).
            \<forall>v. r = Inr v \<longrightarrow> \<not> (0 \<le> v \<and> v \<le> 127)"
  shows "((\<exists>r \<in> set (map recover_secret (zip_star shares)).
             \<forall>v. r = Inr v \<longrightarrow> \<not> (0 \<le> v \<and> v < 256))
          \<longrightarrow> (\<exists>e. decode_secret shares = Inl e \<and> is_ValueError e))
       \<and> (\<forall>vs. map recover_secret (zip_star shares) = map Inr vs
                \<and> list_all (\<lambda>v. 0 \<le> v \<and> v < 256) vs
          \<longrightarrow> decode_secret shares = utf8_decode (map nat vs)
              \<and> (decode_secret shares = Inl UnicodeDecodeError
                   \<or> (\<exists>s. decode_secret shares = Inr s \<and> \<not> isascii s)))"
proof (intro conjI allI impI)
  assume bad: "\<exists>r \<in> set (map recover_secret (zip_star shares)).
                 \<forall>v. r = Inr v \<longrightarrow> \<not> (0 \<le> v \<and> v < 256)"
  show "\<exists>e. decode_secret shares = Inl e \<and> is_ValueError e"
  proof (cases "recover_bytes (zip_star shares)")
    case (Inl e)
    then have "decode_secret shares = Inl e" by (simp add: decode_secret_def)
    with recover_bytes_error [OF Inl] show ?thesis by blast
  next
    case (Inr bs)
    from recover_bytes_values [OF Inr] bad
    obtain b where "b \<in> set bs" "b < 256" "\<not> (0 \<le> int b \<and> int b < 256)"
      by (auto simp: list_all_iff)
    then show ?thesis by simp
  qed
next
  fix vs
  assume "map recover_secret (zip_star shares) = map Inr vs
            \<and> list_all (\<lambda>v. 0 \<le> v \<and> v < 256) vs"
  then have rs: "map recover_secret (zip_star shares) = map Inr vs"
    and range: "list_all (\<lambda>v. 0 \<le> v \<and> v < 256) vs" by blast+
  from recover_bytes_in_range [OF rs range]
  have dec: "decode_secret shares = utf8_decode (map nat vs)"
    by (simp add: decode_secret_def)
  from assms rs obtain v where v: "v \<in> set vs" "\<not> (0 \<le> v \<and> v \<le> 127)" by auto
  with range have "128 \<le> nat v" by (auto simp: list_all_iff)
  with v(1) have "\<exists>b \<in> set (map nat vs). \<not> b < 128" by force
  then have big: "\<not> list_all (\<lambda>b. b < 128) (map nat vs)"
    unfolding list_all_iff by blast
  have "utf8_decode (map nat vs) = Inl UnicodeDecodeError
      \<or> (\<exists>s. utf8_decode (map nat vs) = Inr s \<and> \<not> isascii s)"
  proof (cases "utf8_decode (map nat vs)")
    case (Inl e)
    with utf8_decode_error [OF Inl] show ?thesis by simp
  next
    case (Inr s)
    with utf8_decode_ascii_only [OF Inr] big show ?thesis by blast
  qed
  with dec show "decode_secret shares = Inl UnicodeDecodeError
      \<or> (\<exists>s. decode_secret shares = Inr s \<and> \<not> isascii s)"
    by simp
  from dec show "decode_secret shares = utf8_decode (map nat vs)" .
qed

theorem decode_secret_not_ascii_witness:
  "decode_secret [[(1, 200)], [(2, 200)]] = Inl UnicodeDecodeError
   \<and> decode_secret [[(1, 195), (1, 169)], [(2, 195), (2, 169)]] = Inr [233]
   \<and> \<not> isascii [233]
   \<and> (\<exists>e. decode_secret [[(1, 256)], [(2, 256)]] = Inl e \<and> is_ValueError e)"
proof -
  let ?A = "[[(1, 200)], [(2, 200)]] :: share list"
  let ?B = "[[(1, 195), (1, 169)], [(2, 195), (2, 169)]] :: share list"
  let ?C = "[[(1, 256)], [(2, 256)]] :: share list"
  have hA: "\<exists>r \<in> set (map recover_secret (zip_star ?A)).
              \<forall>v. r = Inr v \<longrightarrow> \<not> (0 \<le> v \<and> v \<le> 127)"
    by (simp add: non_ascii_example)
  have hB: "\<exists>r \<in> set (map recover_secret (zip_star ?B)).
              \<forall>v. r = Inr v \<longrightarrow> \<not> (0 \<le> v \<and> v \<le> 127)"
    by (simp add: non_ascii_example)
  have hC: "\<exists>r \<in> set (map recover_secret (zip_star ?C)).
              \<forall>v. r = Inr v \<longrightarrow> \<not> (0 \<le> v \<and> v \<le> 127)"
    by (simp add: non_ascii_example)
  have a: "decode_secret ?A = utf8_decode (map nat [200])"
    using decode_secret_not_ascii [OF hA, THEN conjunct2, rule_format, of "[200]"]
    by (simp add: non_ascii_example)
  have b: "decode_secret ?B = utf8_decode (map nat [195, 169])"
    using decode_secret_not_ascii [OF hB, THEN conjunct2, rule_format, of "[195, 169]"]
    by (simp add: non_ascii_example)
  have c: "\<exists>e. decode_secret ?C = Inl e \<and> is_ValueError e"
    using decode_secret_not_ascii [OF hC, THEN conjunct1]
    by (simp add: non_ascii_example)
  have "map nat [200] = [200]" "map nat [195, 169] = [195, 169]" by simp_all
  with a b have "decode_secret ?A = Inl UnicodeDecodeError" "decode_secret ?B = Inr [233]"
    by (simp_all only: non_ascii_example)
  moreover have "\<not> isascii [233]" by (simp add: isascii_def)
  ultimately show ?thesis using c by blast
qed

section \<open>Properties of the validator\<close>

lemma first_indices_nonempty:
  "\<forall>s \<in> set shares. s \<noteq> [] \<Longrightarrow> first_indices shares = Inr (map (\<lambda>s. fst (hd s)) shares)"
  by (induction shares) (auto split: list.splits)

lemma first_indices_all_empty:
  "shares \<noteq> [] \<Longrightarrow> \<forall>s \<in> set shares. s = [] \<Longrightarrow> first_indices shares = Inl IndexError"
  by (cases shares) auto

lemma card_lengths_one_iff:
  assumes "xs \<noteq> []"
  shows "card (set xs) = 1 \<longleftrightarrow> (\<forall>a \<in> set xs. \<forall>b \<in> set xs. a = b)"
proof
  assume "card (set xs) = 1"
  then obtain c where "set xs = {c}" by (auto simp: card_1_singleton_iff)
  then show "\<forall>a \<in> set xs. \<forall>b \<in> set xs. a = b" by simp
next
  assume same: "\<forall>a \<in> set xs. \<forall>b \<in> set xs. a = b"
  from assms obtain c where c: "c \<in> set xs" by (cases xs) auto
  with same have "set xs = {c}" by auto
  then show "card (set xs) = 1" by simp
qed

lemma validate_shares_cascade:
  assumes "\<forall>s \<in> set shares. s \<noteq> []"
  shows "validate_shares shares =
     (if length shares < 2 then Inr (False, ''At least 2 shares needed.'')
      else if \<exists>s \<in> set shares. \<exists>t \<in> set shares. length s \<noteq> length t
        then Inr (False, ''Shares length mismatch.'')
      else if \<not> distinct (map (\<lambda>s. fst (hd s)) shares)
        then Inr (False, ''Duplicate share indices.'')
      else Inr (True, ''''))"
proof (cases "length shares < 2")
  case True
  then show ?thesis by (simp add: validate_shares_def)
next
  case False
  then have ne: "map length shares \<noteq> []" by auto
  let ?mismatch = "\<exists>s \<in> set shares. \<exists>t \<in> set shares. length s \<noteq> length t"
  let ?ix = "map (\<lambda>s. fst (hd s)) shares"
  have len: "card (set (map length shares)) = 1 \<longleftrightarrow> \<not> ?mismatch"
    using card_lengths_one_iff [OF ne] by auto
  have dup: "card (set ?ix) = length ?ix \<longleftrightarrow> distinct ?ix"
    using card_distinct distinct_card by metis
  have unfolded: "validate_shares shares =
      (if card (set (map length shares)) \<noteq> 1 then Inr (False, ''Shares length mismatch.'')
       else if card (set ?ix) \<noteq> length ?ix then Inr (False, ''Duplicate share indices.'')
       else Inr (True, ''''))"
    unfolding validate_shares_def first_indices_nonempty [OF assms]
    using False by simp
  show ?thesis
  proof (cases ?mismatch)
    case True
    with len have ne1: "card (set (map length shares)) \<noteq> 1" by blast
    have "validate_shares shares = Inr (False, ''Shares length mismatch.'')"
      unfolding unfolded by (rule if_P [OF ne1])
    then show ?thesis
      unfolding if_not_P [OF False] if_P [OF True] .
  next
    case nomis: False
    with len have one: "\<not> card (set (map length shares)) \<noteq> 1" by blast
    show ?thesis
    proof (cases "distinct ?ix")
      case True
      with dup have c: "\<not> card (set ?ix) \<noteq> length ?ix" by blast
      have nn: "\<not> \<not> distinct ?ix" using True by blast
      have "validate_shares shares = Inr (True, '''')"
        unfolding unfolded if_not_P [OF one] by (rule if_not_P [OF c])
      then show ?thesis
        unfolding if_not_P [OF False] if_not_P [OF nomis] if_not_P [OF nn] .
    next
      case nd: False
      with dup have c: "card (set ?ix) \<noteq> length ?ix" by blast
      have "validate_shares shares = Inr (False, ''Duplicate share indices.'')"
        unfolding unfolded if_not_P [OF one] by (rule if_P [OF c])
      then show ?thesis
        unfolding if_not_P [OF False] if_not_P [OF nomis] if_P [OF nd] .
    qed
  qed
qed

text \<open>
  C7. On a list of non-empty shares the validator answers, in this order: fewer than two
  shares give the too-few reason; otherwise two shares of different lengths give the
  length-mismatch reason; otherwise two shares with the same index \<open>x\<close> (the \<open>x\<close> of
  their first point; the list of these indices is not \<open>distinct\<close>) give exactly
  \<open>(False, "Duplicate share indices.")\<close>; otherwise the result is success,
  \<open>(True, "")\<close>.
\<close>

theorem validate_shares_correct:
  assumes "\<forall>s \<in> set shares. s \<noteq> []"
  shows "validate_shares shares =
     (if length shares < 2 then Inr (False, ''At least 2 shares needed.'')
      else if \<exists>s \<in> set shares. \<exists>t \<in> set shares. length s \<noteq> length t
        then Inr (False, ''Shares length mismatch.'')
      else if \<not> distinct (map (\<lambda>s. fst (hd s)) shares)
        then Inr (False, ''Duplicate share indices.'')
      else Inr (True, ''''))"
  using assms by (rule validate_shares_cascade)

theorem validate_shares_correct_witness:
  "validate_shares [] = Inr (False, ''At least 2 shares needed.'')
   \<and> validate_shares [[(1, 5)]] = Inr (False, ''At least 2 shares needed.'')
   \<and> validate_shares [[(1, 5)], [(2, 7), (2, 9)]] = Inr (False, ''Shares length mismatch.'')
   \<and> validate_shares [[(1, 5)], [(1, 7)]] = Inr (False, ''Duplicate share indices.'')
   \<and> validate_shares [[(1, 5)], [(2, 7)]] = Inr (True, '''')"
proof -
  have a: "validate_shares [] = Inr (False, ''At least 2 shares needed.'')"
    using validate_shares_correct [of "[]"] by simp
  have b: "validate_shares [[(1, 5)]] = Inr (False, ''At least 2 shares needed.'')"
    using validate_shares_correct [of "[[(1, 5)]]"] by simp
  have c: "validate_shares [[(1, 5)], [(2, 7), (2, 9)]] = Inr (False, ''Shares length mismatch.'')"
    using validate_shares_correct [of "[[(1, 5)], [(2, 7), (2, 9)]]"] by fastforce
  have d: "validate_shares [[(1, 5)], [(1, 7)]] = Inr (False, ''Duplicate share indices.'')"
    using validate_shares_correct [of "[[(1, 5)], [(1, 7)]]"] by simp
  have e: "validate_shares [[(1, 5)], [(2, 7)]] = Inr (True, '''')"
    using validate_shares_correct [of "[[(1, 5)], [(2, 7)]]"] by simp
  from a b c d e show ?thesis by simp
qed

text \<open>
  C8. On a list of two or more shares that are all empty the validator does not return a
  result: reading the first point of a share raises \<open>IndexError\<close>.
\<close>

theorem validate_shares_empty_shares_raise:
  assumes "2 \<le> length shares" and "\<forall>s \<in> set shares. s = []"
  shows "validate_shares shares = Inl IndexError"
proof -
  from assms(1) have ne: "shares \<noteq> []" by auto
  have "map length shares = replicate (length shares) 0"
    using assms(2) by (simp add: map_replicate_const [symmetric] cong: map_cong)
  then have "set (map length shares) = {0}"
    using ne by (simp del: set_map)
  then have "card (set (map length shares)) = 1" by (simp del: set_map)
  with assms(1) first_indices_all_empty [OF ne assms(2)] show ?thesis
    by (simp add: validate_shares_def del: set_map)
qed

theorem validate_shares_empty_shares_raise_witness:
  "2 \<le> length [[], [] :: share] \<and> validate_shares [[], []] = Inl IndexError"
  using validate_shares_empty_shares_raise [of "[[], []]"] by simp

section \<open>Indices outside the field\<close>

lemma validate_shares_accepts:
  assumes "2 \<le> length shares" and "\<forall>s \<in> set shares. length s = m" and "0 < m"
    and "distinct (map (\<lambda>s. fst (hd s)) shares)"
  shows "validate_shares shares = Inr (True, '''')"
proof -
  have ne: "\<forall>s \<in> set shares. s \<noteq> []" using assms(2,3) by auto
  have a: "\<not> length shares < 2" using assms(1) by simp
  have b: "\<not> (\<exists>s \<in> set shares. \<exists>t \<in> set shares. length s \<noteq> length t)"
    using assms(2) by simp
  have c: "\<not> \<not> distinct (map (\<lambda>s. fst (hd s)) shares)" using assms(4) by simp
  show ?thesis
    unfolding validate_shares_cascade [OF ne] if_not_P [OF a] if_not_P [OF b] if_not_P [OF c] ..
qed

text \<open>
  C10, as stated, fails: the index does have a bound, the one \<^verbatim>\<open>int\<close> sets. The 4301
  digits \<open>1\<close> denote an integer above 257 and \<open>AAA=\<close> is the payload of the single value
  0, yet \<^verbatim>\<open>str_to_share\<close> returns the failure value for this token.
\<close>

theorem long_index_rejected:
  "list_all is_digit (replicate 4301 CHR ''1'')
   \<and> 257 \<le> digits_value 0 (replicate 4301 CHR ''1'')
   \<and> b64decode ''AAA='' = Inr [0, 0]
   \<and> str_to_share (replicate 4301 CHR ''1'' @ '':AAA='') = None"
proof -
  have "1111 \<le> digits_value 0 (replicate (4 + 4297) CHR ''1'')" by (rule many_ones(3))
  then have "257 \<le> digits_value 0 (replicate 4301 CHR ''1'')" by simp
  moreover have "b64decode ''AAA='' = Inr [0, 0]" by code_simp
  moreover have "str_to_share (replicate 4301 CHR ''1'' @ '':'' @ ''AAA='') = None"
    by (rule str_to_share_too_many_digits)
       (simp_all add: many_ones(1) int_max_str_digits_def isspace_def)
  ultimately show ?thesis by (simp add: many_ones(1))
qed

text \<open>
  C10, amended. No bound at the size of the field. Take any list of well-formed tokens
  (decimal digits, at most the 4300 that \<^verbatim>\<open>int\<close> reads, a colon, a payload that decodes to
  values in \<open>[0, 257)\<close>) whose digits denote indices \<open>x \<ge> 257\<close>. \<^verbatim>\<open>str_to_share\<close> reads
  every one of them as the share carrying that \<open>x\<close>; and when there are at least two of
  these shares, of one non-zero length and with pairwise distinct \<open>x\<close>,
  \<^verbatim>\<open>validate_shares\<close> accepts them.
\<close>

theorem index_above_field_accepted:
  assumes "\<forall>sp \<in> set specs.
      well_formed_token (fst sp) (fst (snd sp)) (snd (snd sp)) \<and> 257 \<le> fst (snd sp)"
  shows "map (\<lambda>sp. str_to_share (fst sp)) specs =
           map (\<lambda>sp. Some (map (\<lambda>v. (fst (snd sp), v)) (snd (snd sp)))) specs
     \<and> (2 \<le> length specs \<longrightarrow> distinct (map (\<lambda>sp. fst (snd sp)) specs) \<longrightarrow>
          (\<forall>sp \<in> set specs. length (snd (snd sp)) = m) \<longrightarrow> 0 < m \<longrightarrow>
          validate_shares (map (\<lambda>sp. map (\<lambda>v. (fst (snd sp), v)) (snd (snd sp))) specs) =
            Inr (True, ''''))"
proof (intro conjI impI)
  show "map (\<lambda>sp. str_to_share (fst sp)) specs =
           map (\<lambda>sp. Some (map (\<lambda>v. (fst (snd sp), v)) (snd (snd sp)))) specs"
  proof (rule map_cong [OF refl])
    fix sp assume "sp \<in> set specs"
    with assms have "well_formed_token (fst sp) (fst (snd sp)) (snd (snd sp))" "0 < fst (snd sp)"
      by auto
    then show "str_to_share (fst sp) = Some (map (\<lambda>v. (fst (snd sp), v)) (snd (snd sp)))"
      by (rule str_to_share_well_formed)
  qed
next
  let ?shares = "map (\<lambda>sp. map (\<lambda>v. (fst (snd sp), v)) (snd (snd sp))) specs"
  assume len: "2 \<le> length specs" and dist: "distinct (map (\<lambda>sp. fst (snd sp)) specs)"
    and m: "\<forall>sp \<in> set specs. length (snd (snd sp)) = m" "0 < m"
  have "fst (hd (map (\<lambda>v. (fst (snd sp), v)) (snd (snd sp)))) = fst (snd sp)"
    if "sp \<in> set specs" for sp
  proof -
    from that m have "snd (snd sp) \<noteq> []" by auto
    then show ?thesis by (cases "snd (snd sp)") auto
  qed
  then have eq: "map (\<lambda>s. fst (hd s)) ?shares = map (\<lambda>sp. fst (snd sp)) specs"
    by (simp add: comp_def cong: map_cong)
  have "distinct (map (\<lambda>s. fst (hd s)) ?shares)" unfolding eq by (rule dist)
  moreover have "\<forall>s \<in> set ?shares. length s = m" using m(1) by auto
  moreover have "2 \<le> length ?shares" using len by simp
  ultimately show "validate_shares ?shares = Inr (True, '''')"
    using m(2) by (intro validate_shares_accepts [where m = m])
qed

lemma token_examples:
  "well_formed_token ''0300:AAAABQ=='' 300 [0, 5]"
  "well_formed_token ''1000:AQAAAQ=='' 1000 [256, 1]"
proof -
  have dec: "b64decode ''AAAABQ=='' = Inr [0, 0, 0, 5]" "b64decode ''AQAAAQ=='' = Inr [1, 0, 0, 1]"
    by code_simp+
  have space: "\<not> isspace CHR ''=''" by (simp add: isspace_def)
  have digit: "is_digit CHR ''0''" "is_digit CHR ''1''" "is_digit CHR ''3''"
    by (simp_all add: is_digit_def digit_value_def)
  have val: "digits_value 0 ''0300'' = 300" "digits_value 0 ''1000'' = 1000"
    by (simp_all add: digits_value_def digit_value_def)
  show "well_formed_token ''0300:AAAABQ=='' 300 [0, 5]"
    unfolding well_formed_token_def
    by (intro exI [of _ "''0300''"] exI [of _ "''AAAABQ==''"] exI [of _ "[0, 0, 0, 5]"] conjI)
       (simp_all add: dec space digit val int_max_str_digits_def)
  show "well_formed_token ''1000:AQAAAQ=='' 1000 [256, 1]"
    unfolding well_formed_token_def
    by (intro exI [of _ "''1000''"] exI [of _ "''AQAAAQ==''"] exI [of _ "[1, 0, 0, 1]"] conjI)
       (simp_all add: dec space digit val int_max_str_digits_def)
qed

theorem index_above_field_accepted_witness:
  "str_to_share ''0300:AAAABQ=='' = Some [(300, 0), (300, 5)]
   \<and> str_to_share ''1000:AQAAAQ=='' = Some [(1000, 256), (1000, 1)]
   \<and> validate_shares [[(300, 0), (300, 5)], [(1000, 256), (1000, 1)]] = Inr (True, '''')"
  using index_above_field_accepted
    [of "[(''0300:AAAABQ=='', 300, [0, 5]), (''1000:AQAAAQ=='', 1000, [256, 1])]" 2]
  by (simp add: token_examples)

end
